theory Spec2Isabelle
  imports Main
begin

section \<open>Instants and calendar arithmetic (Go's \<open>time\<close> package)\<close>

text \<open>
  The source works on \<^verbatim>\<open>time.Time\<close> values: it compares them with \<^verbatim>\<open>Before\<close>,
  \<^verbatim>\<open>After\<close> and \<^verbatim>\<open>Equal\<close>, builds them with \<^verbatim>\<open>time.Unix\<close> and shifts them with
  \<^verbatim>\<open>AddDate\<close>. An instant is modelled as the number of nanoseconds since
  1970-01-01T00:00:00Z, and calendar fields are read in UTC (a location without
  daylight-saving transitions), in the proleptic Gregorian calendar as Go does.

  \<^verbatim>\<open>AddDate(years, months, days)\<close> is, in Go,
  \<^verbatim>\<open>Date(year+years, month+months, day+days, hour, min, sec, nsec, loc)\<close> on the fields of
  the receiver, and \<^verbatim>\<open>Date\<close> normalises: a month outside 1..12 overflows into the year,
  and the day is added to the first day of the normalised month, so that October 31
  plus one month is December 1.
\<close>

type_synonym Time = int

definition nsPerDay :: int where
  "nsPerDay = 86400000000000"

definition Unix :: "int \<Rightarrow> int \<Rightarrow> Time" where
  "Unix sec nsec = sec * 1000000000 + nsec"

definition Before :: "Time \<Rightarrow> Time \<Rightarrow> bool" where
  "Before t u = (t < u)"

definition After :: "Time \<Rightarrow> Time \<Rightarrow> bool" where
  "After t u = (t > u)"

definition Equal :: "Time \<Rightarrow> Time \<Rightarrow> bool" where
  "Equal t u = (t = u)"

definition isLeap :: "int \<Rightarrow> bool" where
  "isLeap year = (year mod 4 = 0 \<and> (year mod 100 \<noteq> 0 \<or> year mod 400 = 0))"

text \<open>\<open>daysBefore m\<close>: days of a non-leap year before month \<open>m + 1\<close> starts (Go's table).\<close>

definition daysBefore :: "int \<Rightarrow> int" where
  "daysBefore m = [0, 31, 59, 90, 120, 151, 181, 212, 243, 273, 304, 334, 365] ! nat m"

definition daysIn :: "int \<Rightarrow> int \<Rightarrow> int" where
  "daysIn m year =
     (if m = 2 \<and> isLeap year then 29 else daysBefore m - daysBefore (m - 1))"

text \<open>Days from 0001-01-01 to January 1 of \<open>year\<close>.\<close>

definition daysSinceEpoch :: "int \<Rightarrow> int" where
  "daysSinceEpoch year =
     365 * (year - 1) + (year - 1) div 4 - (year - 1) div 100 + (year - 1) div 400"

text \<open>Days from 0001-01-01 to 1970-01-01.\<close>

definition unixEpochDays :: int where
  "unixEpochDays = 719162"

text \<open>
  The day number (days since 1970-01-01) of a year, month and day that need not be
  in range: the normalisation of \<^verbatim>\<open>time.Date\<close>.
\<close>

definition daysFromCivil :: "int \<Rightarrow> int \<Rightarrow> int \<Rightarrow> int" where
  "daysFromCivil year month day =
     (let m = month - 1; y = year + m div 12; mo = m mod 12 + 1
      in daysSinceEpoch y + daysBefore (mo - 1) + (if isLeap y \<and> 3 \<le> mo then 1 else 0)
           + (day - 1) - unixEpochDays)"

text \<open>
  From a day number back to year, month and day: whole 400-year, 100-year and 4-year
  cycles are cut off, then whole years; the day of the year is looked up in the table.
\<close>

definition year_yday :: "int \<Rightarrow> int \<times> int" where
  "year_yday d0 =
     (let n400 = d0 div 146097; d1 = d0 mod 146097;
          n100 = min (d1 div 36524) 3; d2 = d1 - 36524 * n100;
          n4 = d2 div 1461; d3 = d2 mod 1461;
          n1 = min (d3 div 365) 3; yday = d3 - 365 * n1
      in (400 * n400 + 100 * n100 + 4 * n4 + n1 + 1, yday))"

definition monthOfDay :: "int \<Rightarrow> int \<times> int" where
  "monthOfDay day =
     (let month = day div 31; end = daysBefore (month + 1)
      in if end \<le> day then (month + 2, day - end + 1)
         else (month + 1, day - daysBefore month + 1))"

definition month_day :: "bool \<Rightarrow> int \<Rightarrow> int \<times> int" where
  "month_day leap yday =
     (if leap \<and> yday = 59 then (2, 29)
      else monthOfDay (if leap \<and> yday > 59 then yday - 1 else yday))"

definition civil :: "int \<Rightarrow> int \<times> int \<times> int" where
  "civil days =
     (case year_yday (days + unixEpochDays) of (year, yday) \<Rightarrow>
        case month_day (isLeap year) yday of (month, day) \<Rightarrow> (year, month, day))"

text \<open>
  \<open>DateOf\<close> is \<^verbatim>\<open>t.Date()\<close>; \<open>Clock\<close> stands for \<^verbatim>\<open>t.Clock()\<close> together with the
  nanoseconds, as one number of nanoseconds since midnight; \<open>Date\<close> is \<^verbatim>\<open>time.Date\<close>
  with the clock fields passed as that number.
\<close>

definition DateOf :: "Time \<Rightarrow> int \<times> int \<times> int" where
  "DateOf t = civil (t div nsPerDay)"

definition Clock :: "Time \<Rightarrow> int" where
  "Clock t = t mod nsPerDay"

definition Date :: "int \<Rightarrow> int \<Rightarrow> int \<Rightarrow> int \<Rightarrow> Time" where
  "Date year month day clock = daysFromCivil year month day * nsPerDay + clock"

definition AddDate :: "Time \<Rightarrow> int \<Rightarrow> int \<Rightarrow> int \<Rightarrow> Time" where
  "AddDate t years months days =
     (case DateOf t of (year, month, day) \<Rightarrow>
        Date (year + years) (month + months) (day + days) (Clock t))"

section \<open>Data model\<close>

text \<open>The struct \<^verbatim>\<open>timePeriod{start, end}\<close> used when partitioning an interval.\<close>

record timePeriod =
  pstart :: Time
  pend :: Time

text \<open>
  \<^verbatim>\<open>errors.MyError\<close>, as the source fills it: a message and a status code; a literal
  that names no \<^verbatim>\<open>ErrorCode\<close> leaves Go's zero value 0.
\<close>

record MyError =
  Err :: string
  ErrorCode :: int

text \<open>\<^verbatim>\<open>trademodels.GdaxError\<close>: the exchange's error payload, read for its message.\<close>

record GdaxError =
  Message :: string

text \<open>
  Modelled from the spec: the struct \<^verbatim>\<open>PricePoint\<close> is declared outside the given
  source, which builds it positionally from an \<^verbatim>\<open>int64\<close> and a string; the spec names
  the two parts a timestamp in epoch seconds and a decimal price string.
\<close>

record PricePoint =
  Timestamp :: int
  Price :: string

text \<open>
  The interval labels \<^verbatim>\<open>TWOYEAR\<close>, ..., \<^verbatim>\<open>DAY\<close> are string constants declared outside
  the given source; they are taken as a parameter. Go rejects a map literal or a switch
  that repeats a constant key, so the program only exists for distinct labels.
\<close>

record labels =
  TWOYEAR :: string
  YEAR :: string
  SIXMONTH :: string
  THREEMONTH :: string
  MONTH :: string
  WEEK :: string
  DAY :: string

definition supported :: "labels \<Rightarrow> string list" where
  "supported L = [TWOYEAR L, YEAR L, SIXMONTH L, THREEMONTH L, MONTH L, WEEK L, DAY L]"

text \<open>What a run can end in besides returning: the two run-time panics of the source.\<close>

datatype panic = NilPointerDereference | IndexOutOfRange

text \<open>
  An HTTP response as far as the source reads it, and the pair \<^verbatim>\<open>(response, err)\<close>
  that \<^verbatim>\<open>http.Get\<close> returns: each of the two may be nil.
\<close>

record response =
  StatusCode :: int
  Body :: string

type_synonym get_result = "response option \<times> string option"

text \<open>
  The collaborators the source calls and does not define. \<^verbatim>\<open>float64\<close> is the type
  parameter \<open>'f\<close>, with the two operations the source applies to it;
  \<open>'n\<close> is the state of the network, which a request may change.
  \<^item> \<open>roundTime\<close>: the helper \<^verbatim>\<open>roundTime\<close>, declared outside the given source;
  \<^item> \<open>ToUpper\<close>: \<^verbatim>\<open>strings.ToUpper\<close>;
  \<^item> \<open>toInt64\<close>: the conversion \<^verbatim>\<open>int64(x)\<close> of a \<^verbatim>\<open>float64\<close>;
  \<^item> \<open>FormatFloat\<close>: \<^verbatim>\<open>strconv.FormatFloat(x, 'f', -1, 64)\<close>;
  \<^item> \<open>transport\<close>: \<^verbatim>\<open>http.Get\<close> on a URL, in a state of the network;
  \<^item> \<open>decodeBuckets\<close>: \<^verbatim>\<open>json.NewDecoder(body).Decode\<close> into \<^verbatim>\<open>[][]float64\<close>,
    \<open>Inl\<close> the decoder's error message;
  \<^item> \<open>decodeError\<close>: the same into a \<^verbatim>\<open>GdaxError\<close>.
\<close>

record ('f, 'n) env =
  roundTime :: "Time \<Rightarrow> Time"
  ToUpper :: "string \<Rightarrow> string"
  toInt64 :: "'f \<Rightarrow> int"
  FormatFloat :: "'f \<Rightarrow> string"
  transport :: "string \<Rightarrow> 'n \<Rightarrow> get_result \<times> 'n"
  decodeBuckets :: "string \<Rightarrow> string + 'f list list"
  decodeError :: "string \<Rightarrow> string + GdaxError"

text \<open>
  The world a call runs in: the reading of \<^verbatim>\<open>time.Now()\<close>, the state of the network,
  and the URLs requested so far, in order.
\<close>

record 'n world =
  now :: Time
  net :: 'n
  requests :: "string list"

definition http_Get :: "('f, 'n) env \<Rightarrow> string \<Rightarrow> 'n world \<Rightarrow> get_result \<times> 'n world" where
  "http_Get E url w =
     (case transport E url (net w) of
        (r, n') \<Rightarrow> (r, w\<lparr>net := n', requests := requests w @ [url]\<rparr>))"

section \<open>Granularity table\<close>

definition dailyBySeconds :: int where "dailyBySeconds = 86400"

definition sixhourBySeconds :: int where "sixhourBySeconds = 21600"

definition hourBySeconds :: int where "hourBySeconds = 3600"

definition fifteenminuteBySeconds :: int where "fifteenminuteBySeconds = 900"

definition gdaxIntervalToGranularity :: "labels \<Rightarrow> (string \<times> int) list" where
  "gdaxIntervalToGranularity L =
     [(TWOYEAR L, dailyBySeconds),
      (YEAR L, dailyBySeconds),
      (SIXMONTH L, dailyBySeconds),
      (THREEMONTH L, dailyBySeconds),
      (MONTH L, sixhourBySeconds),
      (WEEK L, hourBySeconds),
      (DAY L, fifteenminuteBySeconds)]"

text \<open>Indexing a Go map: a key that is absent yields the zero value.\<close>

definition mapIndex :: "(string \<times> int) list \<Rightarrow> string \<Rightarrow> int" where
  "mapIndex m k = (case map_of m k of None \<Rightarrow> 0 | Some v \<Rightarrow> v)"

section \<open>Interval partitioner\<close>

text \<open>
  The two loops of \<^verbatim>\<open>getIntervalPartition\<close> (two years, one year) differ in their bound
  only: the index starts six months before \<open>nowRounded\<close> and steps back six months
  while it is after or equal to the bound; each pass appends the window from the index
  to six months after it. That the loop ends is proved below, once it is known that six
  months back is at least 181 days back.
\<close>

function sixMonthWindows :: "Time \<Rightarrow> Time \<Rightarrow> timePeriod list \<Rightarrow> timePeriod list" where
  "sixMonthWindows bound timeIndex intervalPartition =
     (if After timeIndex bound \<or> Equal timeIndex bound
      then sixMonthWindows bound (AddDate timeIndex 0 (- 6) 0)
             (intervalPartition @ [\<lparr>pstart = timeIndex, pend = AddDate timeIndex 0 6 0\<rparr>])
      else intervalPartition)"
  by pat_completeness auto

definition getIntervalPartition ::
  "('f, 'n) env \<Rightarrow> labels \<Rightarrow> Time \<Rightarrow> string \<Rightarrow> timePeriod list" where
  "getIntervalPartition E L time_Now interval =
     (let nowRounded = roundTime E time_Now;
          nowRounded = AddDate nowRounded 0 0 1
      in if interval = TWOYEAR L then
           (let twoYearsAgo = AddDate nowRounded (- 2) 0 0
            in sixMonthWindows twoYearsAgo (AddDate nowRounded 0 (- 6) 0) [])
         else if interval = YEAR L then
           (let oneYearAgo = AddDate nowRounded (- 1) 0 0
            in sixMonthWindows oneYearAgo (AddDate nowRounded 0 (- 6) 0) [])
         else if interval = SIXMONTH L then
           [\<lparr>pstart = AddDate nowRounded 0 (- 6) 0, pend = nowRounded\<rparr>]
         else if interval = THREEMONTH L then
           [\<lparr>pstart = AddDate nowRounded 0 (- 3) 0, pend = nowRounded\<rparr>]
         else if interval = MONTH L then
           [\<lparr>pstart = AddDate nowRounded 0 (- 1) 0, pend = nowRounded\<rparr>]
         else if interval = WEEK L then
           (let first = AddDate nowRounded 0 0 (- 8);
                second = AddDate first 0 0 3;
                third = AddDate second 0 0 3;
                fourth = AddDate third 0 0 2
            in [\<lparr>pstart = third, pend = fourth\<rparr>,
                \<lparr>pstart = second, pend = third\<rparr>,
                \<lparr>pstart = first, pend = second\<rparr>])
         else if interval = DAY L then
           [\<lparr>pstart = AddDate nowRounded 0 0 (- 2), pend = nowRounded\<rparr>]
         else [])"

section \<open>Request builder\<close>

text \<open>
  \<^verbatim>\<open>strconv.FormatInt(i, 10)\<close>, and the layout \<^verbatim>\<open>2006-01-02\<close> of \<^verbatim>\<open>Time.Format\<close>: the
  year padded with zeros to four digits, month and day to two.
\<close>

fun digits :: "nat \<Rightarrow> string" where
  "digits n =
     (if n < 10 then [''0123456789'' ! n]
      else digits (n div 10) @ [''0123456789'' ! (n mod 10)])"

declare digits.simps [simp del]

definition FormatInt :: "int \<Rightarrow> string" where
  "FormatInt i = (if i < 0 then ''-'' @ digits (nat (- i)) else digits (nat i))"

definition appendInt :: "int \<Rightarrow> nat \<Rightarrow> string" where
  "appendInt x width =
     (let ds = digits (nat \<bar>x\<bar>)
      in (if x < 0 then ''-'' else '''') @ replicate (width - length ds) (CHR ''0'') @ ds)"

definition formatDate :: "Time \<Rightarrow> string" where
  "formatDate t =
     (case DateOf t of (year, month, day) \<Rightarrow>
        appendInt year 4 @ ''-'' @ appendInt month 2 @ ''-'' @ appendInt day 2)"

definition gdaxHistoricalEndpoint :: string where
  "gdaxHistoricalEndpoint = ''https://api.gdax.com/products/BTC-USD/candles''"

text \<open>
  \<^verbatim>\<open>http.NewRequest\<close> fails on a method or a URL that is not well-formed; with the
  method \<^verbatim>\<open>GET\<close> and the constant endpoint it returns a request, so the builder always
  returns a URL. \<^verbatim>\<open>Values.Encode\<close> writes the parameters sorted by key.
\<close>

definition buildGdaxRequest :: "int \<Rightarrow> Time \<Rightarrow> Time \<Rightarrow> string + string" where
  "buildGdaxRequest granularity start end =
     Inr (gdaxHistoricalEndpoint @ ''?end='' @ formatDate end
            @ ''&granularity='' @ FormatInt granularity
            @ ''&start='' @ formatDate start)"

section \<open>Fetcher\<close>

text \<open>
  \<^verbatim>\<open>filterBuckets\<close>: the loop over the rows, with the slice \<open>filtered\<close> it appends to.
  Reading \<^verbatim>\<open>bucket[0]\<close> of a row without elements panics.
\<close>

fun filterLoop ::
  "('f, 'n) env \<Rightarrow> Time \<Rightarrow> Time \<Rightarrow> 'f list list \<Rightarrow> 'f list list \<Rightarrow> panic + 'f list list" where
  "filterLoop E start end [] filtered = Inr filtered"
| "filterLoop E start end (bucket # rest) filtered =
     (if length bucket = 0 then Inl IndexOutOfRange
      else
        let timestamp = Unix (toInt64 E (bucket ! 0)) 0
        in if Before timestamp end \<and> After timestamp start
              \<or> Equal timestamp start \<or> Equal timestamp end
           then filterLoop E start end rest (filtered @ [bucket])
           else filterLoop E start end rest filtered)"

definition filterBuckets ::
  "('f, 'n) env \<Rightarrow> Time \<Rightarrow> Time \<Rightarrow> 'f list list \<Rightarrow> panic + 'f list list" where
  "filterBuckets E start end buckets = filterLoop E start end buckets []"

text \<open>
  The loop of \<^verbatim>\<open>fetchGdaxBuckets\<close> over the partition, with the accumulated \<open>buckets\<close>
  and the world. A run returns the pair \<^verbatim>\<open>(buckets, myerror)\<close>, each of which may be
  nil (\<open>None\<close>), or panics. Closing the body and logging are not modelled.
\<close>

fun fetchLoop ::
  "('f, 'n) env \<Rightarrow> int \<Rightarrow> timePeriod list \<Rightarrow> 'f list list \<Rightarrow> 'n world
     \<Rightarrow> (panic + ('f list list option \<times> MyError option)) \<times> 'n world" where
  "fetchLoop E granularity [] buckets w = (Inr (Some buckets, None), w)"
| "fetchLoop E granularity (timePeriod # rest) buckets w =
     (case buildGdaxRequest granularity (pstart timePeriod) (pend timePeriod) of
        Inl err \<Rightarrow> (Inr (None, Some \<lparr>Err = err, ErrorCode = 0\<rparr>), w)
      | Inr requestString \<Rightarrow>
          (case http_Get E requestString w of
             ((response, err), w') \<Rightarrow>
               if err \<noteq> None then
                 (case response of
                    None \<Rightarrow> (Inl NilPointerDereference, w')
                  | Some _ \<Rightarrow>
                      (Inr (None, Some \<lparr>Err = ''Failed to reach GDAX API'', ErrorCode = 500\<rparr>),
                       w'))
               else
                 (case response of
                    None \<Rightarrow> (Inl NilPointerDereference, w')
                  | Some r \<Rightarrow>
                      if StatusCode r = 200 then
                        (case decodeBuckets E (Body r) of
                           Inl e \<Rightarrow> (Inr (None, Some \<lparr>Err = e, ErrorCode = 500\<rparr>), w')
                         | Inr tempBuckets \<Rightarrow>
                             (case filterBuckets E (pstart timePeriod) (pend timePeriod)
                                     tempBuckets of
                                Inl p \<Rightarrow> (Inl p, w')
                              | Inr tempBuckets' \<Rightarrow>
                                  fetchLoop E granularity rest (buckets @ tempBuckets') w'))
                      else
                        (case decodeError E (Body r) of
                           Inl e \<Rightarrow> (Inr (None, Some \<lparr>Err = e, ErrorCode = 0\<rparr>), w')
                         | Inr errResp \<Rightarrow>
                             (Inr (None, Some \<lparr>Err = Message errResp, ErrorCode = 0\<rparr>),
                              w')))))"

definition fetchGdaxBuckets ::
  "('f, 'n) env \<Rightarrow> labels \<Rightarrow> string \<Rightarrow> 'n world
     \<Rightarrow> (panic + ('f list list option \<times> MyError option)) \<times> 'n world" where
  "fetchGdaxBuckets E L interval w =
     (let intervalPartition = getIntervalPartition E L (now w) interval;
          granularity = mapIndex (gdaxIntervalToGranularity L) interval
      in fetchLoop E granularity intervalPartition [] w)"

section \<open>Normalizer\<close>

text \<open>
  \<^verbatim>\<open>generalizeGdaxBuckets\<close> allocates \<^verbatim>\<open>len(buckets)\<close> zero PricePoints and overwrites
  them by index. Reading \<^verbatim>\<open>val[1]\<close> of a row with fewer than two elements panics.
\<close>

fun generalizeLoop ::
  "('f, 'n) env \<Rightarrow> nat \<Rightarrow> 'f list list \<Rightarrow> PricePoint list \<Rightarrow> panic + PricePoint list" where
  "generalizeLoop E index [] pricePoints = Inr pricePoints"
| "generalizeLoop E index (val # rest) pricePoints =
     (if length val \<le> 1 then Inl IndexOutOfRange
      else
        let price = FormatFloat E (val ! 1)
        in generalizeLoop E (Suc index) rest
             (pricePoints[index := \<lparr>Timestamp = toInt64 E (val ! 0), Price = price\<rparr>]))"

definition generalizeGdaxBuckets ::
  "('f, 'n) env \<Rightarrow> 'f list list \<Rightarrow> panic + PricePoint list" where
  "generalizeGdaxBuckets E buckets =
     generalizeLoop E 0 buckets (replicate (length buckets) \<lparr>Timestamp = 0, Price = ''''\<rparr>)"

section \<open>Orchestrator\<close>

text \<open>A nil slice has no elements.\<close>

definition elems :: "'a list option \<Rightarrow> 'a list" where
  "elems s = (case s of None \<Rightarrow> [] | Some xs \<Rightarrow> xs)"

definition PollGdaxHistorical ::
  "('f, 'n) env \<Rightarrow> labels \<Rightarrow> string \<Rightarrow> 'n world
     \<Rightarrow> (panic + (PricePoint list option \<times> MyError option)) \<times> 'n world" where
  "PollGdaxHistorical E L interval0 w =
     (let interval = ToUpper E interval0
      in if mapIndex (gdaxIntervalToGranularity L) interval = 0 then
           (Inr (None,
                 Some \<lparr>Err = ''Please provide a valid interval; '' @ interval @ '' is invalid'',
                       ErrorCode = 400\<rparr>), w)
         else
           (case fetchGdaxBuckets E L interval w of
              (Inl p, w') \<Rightarrow> (Inl p, w')
            | (Inr (buckets, myerror), w') \<Rightarrow>
                if myerror \<noteq> None then (Inr (None, myerror), w')
                else
                  (case generalizeGdaxBuckets E (elems buckets) of
                     Inl p \<Rightarrow> (Inl p, w')
                   | Inr pricePoints \<Rightarrow> (Inr (Some pricePoints, None), w'))))"

section \<open>Notions for stating the properties\<close>

text \<open>\<^verbatim>\<open>t.Day()\<close>: the day of the month of an instant.\<close>

definition dayOfMonth :: "Time \<Rightarrow> int" where
  "dayOfMonth t = (case DateOf t of (year, month, day) \<Rightarrow> day)"

text \<open>
  \<open>keepsDay t k\<close>: the month that lies \<open>k\<close> months before \<open>t\<close> has the day of the
  month of \<open>t\<close>, so that \<^verbatim>\<open>t.AddDate(0, -k, 0)\<close> falls on that day and does not run
  over into the month after. January 31 keeps its day six months back (July 31);
  August 31 does not (February has no day 31).
\<close>

definition keepsDay :: "Time \<Rightarrow> int \<Rightarrow> bool" where
  "keepsDay t k = (dayOfMonth (AddDate t 0 (- k) 0) = dayOfMonth t)"

text \<open>The sizes of the ranges, in the order of the sequence.\<close>

definition spans :: "timePeriod list \<Rightarrow> int list" where
  "spans ps = map (\<lambda>p. pend p - pstart p) ps"

text \<open>The instants that some range of the sequence contains.\<close>

definition cover :: "timePeriod list \<Rightarrow> Time set" where
  "cover ps = (\<Union>p \<in> set ps. {pstart p .. pend p})"

text \<open>
  The rows of one decoded array are well formed for a sub-range when every row has a
  timestamp (element 0) and every row whose timestamp is inside the sub-range also has
  a price (element 1).
\<close>

definition rowsWellFormed :: "('f, 'n) env \<Rightarrow> timePeriod \<Rightarrow> 'f list list \<Rightarrow> bool" where
  "rowsWellFormed E timePeriod rows =
     ([] \<notin> set rows
      \<and> (\<forall>row \<in> set rows.
            (pstart timePeriod \<le> Unix (toInt64 E (row ! 0)) 0
               \<and> Unix (toInt64 E (row ! 0)) 0 \<le> pend timePeriod
             \<or> Unix (toInt64 E (row ! 0)) 0 = pstart timePeriod
             \<or> Unix (toInt64 E (row ! 0)) 0 = pend timePeriod)
            \<longrightarrow> 2 \<le> length row))"

text \<open>
  The answers that one run gets are well formed when, request after request from the
  world the run starts in, the transport hands back a response (with or without an
  error) and, where the response has status 200 and its body decodes, the rows are well
  formed for the sub-range and the answers to the remaining requests are well formed
  from the world the request leaves. The run makes no request after a transport error,
  a status other than 200 or a body that does not decode, so nothing is asked of later
  answers then.
\<close>

fun wellFormedRun :: "('f, 'n) env \<Rightarrow> int \<Rightarrow> timePeriod list \<Rightarrow> 'n world \<Rightarrow> bool" where
  "wellFormedRun E granularity [] w = True"
| "wellFormedRun E granularity (timePeriod # rest) w =
     (case buildGdaxRequest granularity (pstart timePeriod) (pend timePeriod) of
        Inl err \<Rightarrow> True
      | Inr requestString \<Rightarrow>
          (case http_Get E requestString w of
             ((response, err), w') \<Rightarrow>
               (case response of
                  None \<Rightarrow> False
                | Some r \<Rightarrow>
                    if err = None \<and> StatusCode r = 200 then
                      (case decodeBuckets E (Body r) of
                         Inl e \<Rightarrow> True
                       | Inr rows \<Rightarrow>
                           rowsWellFormed E timePeriod rows
                           \<and> wellFormedRun E granularity rest w')
                    else True)))"

text \<open>
  The far end of the lookback window of each label, as the source computes it from
  \<open>nowRounded\<close>: two years, one year, six, three and one month, eight days, two days.
\<close>

definition windowStart :: "labels \<Rightarrow> string \<Rightarrow> Time \<Rightarrow> Time" where
  "windowStart L interval nowRounded =
     (if interval = TWOYEAR L then AddDate nowRounded (- 2) 0 0
      else if interval = YEAR L then AddDate nowRounded (- 1) 0 0
      else if interval = SIXMONTH L then AddDate nowRounded 0 (- 6) 0
      else if interval = THREEMONTH L then AddDate nowRounded 0 (- 3) 0
      else if interval = MONTH L then AddDate nowRounded 0 (- 1) 0
      else if interval = WEEK L then AddDate nowRounded 0 0 (- 8)
      else AddDate nowRounded 0 0 (- 2))"

text \<open>
  The months that the loop of a label visits have the day of the month of
  \<open>nowRounded\<close>: the months 6, 12, 18 and 24 months before it for the two-year label,
  6 and 12 months before it for the one-year label. The other labels have no loop.
\<close>

definition loopKeepsDay :: "labels \<Rightarrow> string \<Rightarrow> Time \<Rightarrow> bool" where
  "loopKeepsDay L interval nowRounded =
     (if interval = TWOYEAR L then
        keepsDay nowRounded 6 \<and> keepsDay nowRounded 12
        \<and> keepsDay nowRounded 18 \<and> keepsDay nowRounded 24
      else if interval = YEAR L then keepsDay nowRounded 6 \<and> keepsDay nowRounded 12
      else True)"

section \<open>A concrete environment for checking the theorems on inputs\<close>

text \<open>
  Rows of integer-valued numbers (for which \<^verbatim>\<open>int64\<close> is the identity and
  \<^verbatim>\<open>FormatFloat\<close> prints the decimal integer), upper-casing of ASCII letters, a
  \<open>roundTime\<close> that truncates to midnight, a network that answers from a script of
  results and fails once the script is used up, and decoders that know a few bodies.
\<close>

definition sampleLabels :: labels where
  "sampleLabels =
     \<lparr>TWOYEAR = ''TWOYEAR'', YEAR = ''YEAR'', SIXMONTH = ''SIXMONTH'',
      THREEMONTH = ''THREEMONTH'', MONTH = ''MONTH'', WEEK = ''WEEK'', DAY = ''DAY''\<rparr>"

definition asciiUpper :: "string \<Rightarrow> string" where
  "asciiUpper s =
     map (\<lambda>c. case map_of (zip ''abcdefghijklmnopqrstuvwxyz'' ''ABCDEFGHIJKLMNOPQRSTUVWXYZ'') c of
                None \<Rightarrow> c
              | Some u \<Rightarrow> u) s"

definition scripted :: "string \<Rightarrow> get_result list \<Rightarrow> get_result \<times> get_result list" where
  "scripted url script =
     (case script of
        [] \<Rightarrow> ((None, Some ''connection refused''), [])
      | r # rest \<Rightarrow> (r, rest))"

definition sampleDecodeBuckets :: "string \<Rightarrow> string + int list list" where
  "sampleDecodeBuckets body =
     (if body = ''[]'' then Inr []
      else if body = ''[[]]'' then Inr [[]]
      else if body = ''[[0,7000]]'' then Inr [[0, 7000]]
      else Inl ''invalid character'')"

definition sampleDecodeError :: "string \<Rightarrow> string + GdaxError" where
  "sampleDecodeError body =
     (if body = ''{\"message\":\"NotFound\"}'' then Inr \<lparr>Message = ''NotFound''\<rparr>
      else Inl ''invalid character'')"

definition sampleEnv :: "(int, get_result list) env" where
  "sampleEnv =
     \<lparr>roundTime = (\<lambda>t. t - t mod nsPerDay),
      ToUpper = asciiUpper,
      toInt64 = (\<lambda>x. x),
      FormatFloat = FormatInt,
      transport = scripted,
      decodeBuckets = sampleDecodeBuckets,
      decodeError = sampleDecodeError\<rparr>"

definition sampleWorld :: "get_result list \<Rightarrow> get_result list world" where
  "sampleWorld script = \<lparr>now = 0, net = script, requests = []\<rparr>"

section \<open>Facts about the calendar\<close>

text \<open>
  The conversions between day numbers and dates are inverse to each other on the dates
  that \<open>civil\<close> returns, a shift by whole days is exact, and a shift by six months moves
  an instant by 181 to 184 days whatever the day of the month is.
\<close>

lemma int_div_step: 
  fixes y k :: int
  assumes "0 < k"
  shows "(y + 1) div k = y div k + (if (y + 1) mod k = 0 then 1 else 0)"
proof -
  define q r where "q = y div k" and "r = y mod k"
  have y: "y = q * k + r" and r: "0 \<le> r" "r < k"
    using assms by (simp_all add: q_def r_def)
  show ?thesis
  proof (cases "r + 1 = k")
    case True
    then have "y + 1 = (q + 1) * k" using y by (simp add: algebra_simps)
    then show ?thesis using assms q_def by simp
  next
    case False
    then have lt: "r + 1 < k" using r by simp
    have e: "y + 1 = (r + 1) + q * k" using y by simp
    have d: "(y + 1) div k = q"
      unfolding e using lt r assms by (simp add: div_pos_pos_trivial)
    have m: "(y + 1) mod k = r + 1"
      unfolding e using lt r assms by (simp add: mod_pos_pos_trivial)
    show ?thesis using d m r q_def by simp
  qed
qed

lemma daysSinceEpoch_step:
  "daysSinceEpoch (year + 1) = daysSinceEpoch year + (if isLeap year then 366 else 365)"
proof -
  have a: "year div 4 = (year - 1) div 4 + (if year mod 4 = 0 then 1 else 0)"
    using int_div_step [of 4 "year - 1"] by simp
  have b: "year div 100 = (year - 1) div 100 + (if year mod 100 = 0 then 1 else 0)"
    using int_div_step [of 100 "year - 1"] by simp
  have c: "year div 400 = (year - 1) div 400 + (if year mod 400 = 0 then 1 else 0)"
    using int_div_step [of 400 "year - 1"] by simp
  have d: "year mod 400 = 0 \<Longrightarrow> year mod 100 = 0"
    using mod_mod_cancel [of 100 400 year] by simp
  have e: "year mod 100 = 0 \<Longrightarrow> year mod 4 = 0"
    using mod_mod_cancel [of 4 100 year] by simp
  have l: "daysSinceEpoch (year + 1) = 365 * year + year div 4 - year div 100 + year div 400"
    by (simp add: daysSinceEpoch_def)
  have r: "daysSinceEpoch year =
      365 * (year - 1) + (year - 1) div 4 - (year - 1) div 100 + (year - 1) div 400"
    by (simp add: daysSinceEpoch_def)
  show ?thesis
  proof (cases "year mod 4 = 0")
    case False
    then show ?thesis unfolding l r a b c isLeap_def using d e by auto
  next
    case m4: True
    show ?thesis
    proof (cases "year mod 100 = 0")
      case False
      then show ?thesis unfolding l r a b c isLeap_def using d m4 by auto
    next
      case m100: True
      show ?thesis unfolding l r a b c isLeap_def using m4 m100 by auto
    qed
  qed
qed

lemma year_yday_correct:
  assumes "year_yday d0 = (year, yday)"
  shows "daysSinceEpoch year + yday = d0"
    and "0 \<le> yday"
    and "yday < (if isLeap year then 366 else 365)"
proof -
  define a where "a = d0 div 146097"
  define d1 where "d1 = d0 mod 146097"
  define b where "b = min (d1 div 36524) 3"
  define d2 where "d2 = d1 - 36524 * b"
  define c where "c = d2 div 1461"
  define d3 where "d3 = d2 mod 1461"
  define e where "e = min (d3 div 365) 3"
  have "year_yday d0 = (400 * a + 100 * b + 4 * c + e + 1, d3 - 365 * e)"
    unfolding year_yday_def Let_def e_def d3_def c_def d2_def b_def d1_def a_def
    by (rule refl)
  then have year: "year = 400 * a + 100 * b + 4 * c + e + 1" and yday: "yday = d3 - 365 * e"
    using assms by simp_all
  have d0: "d0 = 146097 * a + d1" by (simp add: a_def d1_def)
  have d1: "0 \<le> d1" "d1 < 146097" by (simp_all add: d1_def)
  define q1 where "q1 = d1 div 36524"
  have q1: "36524 * q1 \<le> d1" "d1 < 36524 * q1 + 36524" "0 \<le> q1"
    using d1 by (simp_all add: q1_def pos_imp_zdiv_nonneg_iff)
  have bq: "b = (if q1 \<le> 3 then q1 else 3)" by (simp add: b_def q1_def min_def)
  have b: "0 \<le> b" "b \<le> 3" using q1 by (simp_all add: bq)
  have d2: "0 \<le> d2" "d2 \<le> 36524" "b < 3 \<Longrightarrow> d2 < 36524"
    using d1 q1 unfolding d2_def bq by (simp_all split: if_splits)
  have d2': "d2 = 1461 * c + d3" by (simp add: c_def d3_def)
  have d3: "0 \<le> d3" "d3 < 1461" by (simp_all add: d3_def)
  have c: "0 \<le> c" "c \<le> 24" using d2(1,2) d2' d3 by linarith+
  have c24: "b < 3 \<Longrightarrow> c = 24 \<Longrightarrow> d3 < 1460" using d2(3) d2' by linarith
  define q3 where "q3 = d3 div 365"
  have q3: "365 * q3 \<le> d3" "d3 < 365 * q3 + 365" "0 \<le> q3"
    using d3 by (simp_all add: q3_def pos_imp_zdiv_nonneg_iff)
  have eq: "e = (if q3 \<le> 3 then q3 else 3)" by (simp add: e_def q3_def min_def)
  have e: "0 \<le> e" "e \<le> 3" using q3 by (simp_all add: eq)
  have yd: "0 \<le> yday" "yday \<le> 365" "e < 3 \<Longrightarrow> yday < 365"
    using d3 q3 unfolding yday eq by (simp_all split: if_splits)
  have q4: "(year - 1) div 4 = 100 * a + 25 * b + c"
    by (rule int_div_pos_eq [where r = e]) (use e year in simp_all)
  have q100: "(year - 1) div 100 = 4 * a + b"
    by (rule int_div_pos_eq [where r = "4 * c + e"]) (use e c year in simp_all)
  have q400: "(year - 1) div 400 = a"
    by (rule int_div_pos_eq [where r = "100 * b + 4 * c + e"]) (use e c b year in simp_all)
  show "daysSinceEpoch year + yday = d0"
    unfolding daysSinceEpoch_def q4 q100 q400 using year yday d0 d2' d2_def by simp
  show "0 \<le> yday" by (rule yd)
  have leap: "isLeap year" if e3: "e = 3" and cb: "c \<noteq> 24 \<or> b = 3"
  proof -
    have m4: "year mod 4 = 0"
      by (rule int_mod_pos_eq [where q = "100 * a + 25 * b + c + 1"]) (use e3 year in simp_all)
    show ?thesis
    proof (cases "c = 24")
      case False
      have "year mod 100 = 4 * c + 4"
        by (rule int_mod_pos_eq [where q = "4 * a + b"]) (use e3 c False year in simp_all)
      then show ?thesis using m4 c by (simp add: isLeap_def)
    next
      case True
      then have "b = 3" using cb by simp
      have "year mod 400 = 0"
        by (rule int_mod_pos_eq [where q = "a + 1"]) (use e3 True \<open>b = 3\<close> year in simp_all)
      then show ?thesis using m4 by (simp add: isLeap_def)
    qed
  qed
  show "yday < (if isLeap year then 366 else 365)"
  proof (cases "yday = 365")
    case False
    then show ?thesis using yd by auto
  next
    case True
    then have e3: "e = 3" using yd(3) e by linarith
    have "d3 = 1460" using True yday e3 by simp
    then have "c \<noteq> 24 \<or> b = 3" using c24 b(2) by fastforce
    then show ?thesis using leap e3 True by simp
  qed
qed

lemma daysBefore_simps:
  "daysBefore 0 = 0" "daysBefore 1 = 31" "daysBefore 2 = 59" "daysBefore 3 = 90"
  "daysBefore 4 = 120" "daysBefore 5 = 151" "daysBefore 6 = 181" "daysBefore 7 = 212"
  "daysBefore 8 = 243" "daysBefore 9 = 273" "daysBefore 10 = 304" "daysBefore 11 = 334"
  "daysBefore 12 = 365"
  by (simp_all add: daysBefore_def)

lemma month_cases:
  fixes m :: int
  assumes "1 \<le> m" "m \<le> 12"
  shows "m = 1 \<or> m = 2 \<or> m = 3 \<or> m = 4 \<or> m = 5 \<or> m = 6 \<or> m = 7 \<or> m = 8 \<or> m = 9
      \<or> m = 10 \<or> m = 11 \<or> m = 12"
  using assms by arith

lemma month_day_plain:
  assumes "0 \<le> day" "day < 365"
  shows "\<exists>m d. monthOfDay day = (m, d) \<and>
         1 \<le> m \<and> m \<le> 12 \<and> 1 \<le> d \<and> d \<le> daysBefore m - daysBefore (m - 1) \<and>
         daysBefore (m - 1) + d - 1 = day"
proof -
  define k where "k = day div 31"
  have k: "31 * k \<le> day" "day < 31 * k + 31"
    by (simp_all add: k_def)
  then have "0 \<le> k" "k \<le> 11"
    using assms by linarith+
  then have "k = 0 \<or> k = 1 \<or> k = 2 \<or> k = 3 \<or> k = 4 \<or> k = 5 \<or> k = 6 \<or> k = 7 \<or> k = 8
      \<or> k = 9 \<or> k = 10 \<or> k = 11"
    by arith
  then show ?thesis
    using k assms unfolding monthOfDay_def Let_def k_def [symmetric]
    by (elim disjE) (simp_all add: daysBefore_simps)
qed

lemma month_day_correct:
  assumes "0 \<le> yday" "yday < (if leap then 366 else 365)" "month_day leap yday = (m, d)"
  shows "1 \<le> m \<and> m \<le> 12 \<and> 1 \<le> d
     \<and> d \<le> (if m = 2 \<and> leap then 29 else daysBefore m - daysBefore (m - 1))
     \<and> daysBefore (m - 1) + (if leap \<and> 3 \<le> m then 1 else 0) + (d - 1) = yday"
proof (cases "leap \<and> yday = 59")
  case True
  then show ?thesis using assms(3) by (auto simp: month_day_def daysBefore_simps)
next
  case False
  define day where "day = (if leap \<and> yday > 59 then yday - 1 else yday)"
  have day: "0 \<le> day" "day < 365" using assms(1,2) False by (auto simp: day_def)
  from month_day_plain [OF day] obtain m' d' where
    eq: "monthOfDay day = (m', d')"
    and m': "1 \<le> m'" "m' \<le> 12" and d': "1 \<le> d'" "d' \<le> daysBefore m' - daysBefore (m' - 1)"
    and sum: "daysBefore (m' - 1) + d' - 1 = day"
    by blast
  have "month_day leap yday = (m', d')"
    using False eq unfolding month_day_def day_def [symmetric] by auto
  then have md: "m = m'" "d = d'" using assms(3) by simp_all
  show ?thesis
  proof (cases "leap \<and> yday > 59")
    case True
    then have "59 \<le> day" by (simp add: day_def)
    then have "3 \<le> m'" using month_cases [OF m'] sum d'
      by (elim disjE) (simp_all add: daysBefore_simps)
    then show ?thesis using True m' d' sum md by (simp add: day_def)
  next
    case nl: False
    then have dy: "day = yday" by (simp add: day_def)
    show ?thesis
    proof (cases leap)
      case True
      then have "yday < 59" using nl False by auto
      then have "m' \<le> 2" using month_cases [OF m'] sum d' dy
        by (elim disjE) (simp_all add: daysBefore_simps)
      then show ?thesis using True m' d' sum md dy by (auto simp: daysBefore_simps)
    next
      case False
      then show ?thesis using m' d' sum md dy by simp
    qed
  qed
qed

lemma daysFromCivil_in_year:
  assumes "1 \<le> m" "m \<le> 12"
  shows "daysFromCivil y m d =
     daysSinceEpoch y + daysBefore (m - 1) + (if isLeap y \<and> 3 \<le> m then 1 else 0)
       + (d - 1) - unixEpochDays"
proof -
  have "(m - 1) div 12 = 0" "(m - 1) mod 12 = m - 1"
    using assms by (simp_all add: div_pos_pos_trivial mod_pos_pos_trivial)
  then show ?thesis by (simp add: daysFromCivil_def Let_def)
qed

lemma civil_correct:
  assumes "civil n = (y, m, d)"
  shows "daysFromCivil y m d = n" and "1 \<le> m" and "m \<le> 12" and "1 \<le> d"
    and "d \<le> daysIn m y"
proof -
  obtain yd where yy: "year_yday (n + unixEpochDays) = (y, yd)"
    and md: "month_day (isLeap y) yd = (m, d)"
    using assms by (auto simp: civil_def split: prod.splits)
  note y = year_yday_correct [OF yy]
  note c = month_day_correct [OF y(2) y(3) md]
  show m: "1 \<le> m" "m \<le> 12" and "1 \<le> d" using c by simp_all
  show "d \<le> daysIn m y" using c by (simp add: daysIn_def)
  show "daysFromCivil y m d = n"
    unfolding daysFromCivil_in_year [OF m] using c y(1) by simp
qed

lemma daysSinceEpoch_pred:
  "daysSinceEpoch (year - 1) = daysSinceEpoch year - (if isLeap (year - 1) then 366 else 365)"
  using daysSinceEpoch_step [of "year - 1"] by simp

lemma daysFromCivil_day: "daysFromCivil y m (d + k) = daysFromCivil y m d + k"
  by (simp add: daysFromCivil_def Let_def)

lemma daysFromCivil_norm:
  "daysFromCivil (y + (m - 1) div 12) ((m - 1) mod 12 + 1 + j) d = daysFromCivil y (m + j) d"
proof -
  define q r where "q = (m - 1) div 12" and "r = (m - 1) mod 12"
  have m: "m + j - 1 = (r + j) + q * 12" by (simp add: q_def r_def)
  have e0: "r + 1 + j - 1 = r + j" by simp
  have e1: "y + q + (r + j) div 12 = y + (m + j - 1) div 12"
    unfolding m by simp
  have e2: "(r + j) mod 12 = (m + j - 1) mod 12"
    unfolding m by simp
  show ?thesis
    unfolding daysFromCivil_def Let_def q_def [symmetric] r_def [symmetric] e0 e1 e2
    by (rule refl)
qed

lemma six_months_in_year:
  assumes "1 \<le> m" "m \<le> 12"
  shows "181 \<le> daysFromCivil y (m + 6) d - daysFromCivil y m d"
    and "daysFromCivil y (m + 6) d - daysFromCivil y m d \<le> 184"
    and "181 \<le> daysFromCivil y m d - daysFromCivil y (m - 6) d"
    and "daysFromCivil y m d - daysFromCivil y (m - 6) d \<le> 184"
  using month_cases [OF assms]
  by (elim disjE;
      simp add: daysFromCivil_def Let_def daysBefore_simps daysSinceEpoch_step
        daysSinceEpoch_pred)+

lemma six_months:
  shows "181 \<le> daysFromCivil y (m + 6) d - daysFromCivil y m d"
    and "daysFromCivil y (m + 6) d - daysFromCivil y m d \<le> 184"
    and "181 \<le> daysFromCivil y m d - daysFromCivil y (m - 6) d"
    and "daysFromCivil y m d - daysFromCivil y (m - 6) d \<le> 184"
proof -
  define y' r where "y' = y + (m - 1) div 12" and "r = (m - 1) mod 12 + 1"
  have r: "1 \<le> r" "r \<le> 12" by (simp_all add: r_def)
  have a: "daysFromCivil y m d = daysFromCivil y' r d"
    using daysFromCivil_norm [of y m 0 d] by (simp add: y'_def r_def)
  have b: "daysFromCivil y (m + 6) d = daysFromCivil y' (r + 6) d"
    using daysFromCivil_norm [of y m 6 d] by (simp add: y'_def r_def)
  have c: "daysFromCivil y (m - 6) d = daysFromCivil y' (r - 6) d"
    using daysFromCivil_norm [of y m "- 6" d] by (simp add: y'_def r_def)
  show "181 \<le> daysFromCivil y (m + 6) d - daysFromCivil y m d"
    and "daysFromCivil y (m + 6) d - daysFromCivil y m d \<le> 184"
    and "181 \<le> daysFromCivil y m d - daysFromCivil y (m - 6) d"
    and "daysFromCivil y m d - daysFromCivil y (m - 6) d \<le> 184"
    unfolding a b c using six_months_in_year [OF r] by blast+
qed

lemma nsPerDay_pos: "0 < nsPerDay"
  by (simp add: nsPerDay_def)

lemma AddDate_eq:
  assumes "DateOf t = (y, m, d)"
  shows "AddDate t a b c
    = t + (daysFromCivil (y + a) (m + b) (d + c) - daysFromCivil y m d) * nsPerDay"
proof -
  have "daysFromCivil y m d = t div nsPerDay"
    using civil_correct(1) assms by (simp add: DateOf_def)
  moreover have "t mod nsPerDay = t - t div nsPerDay * nsPerDay"
    by (simp add: minus_div_mult_eq_mod)
  ultimately show ?thesis
    using assms by (simp add: AddDate_def Date_def Clock_def left_diff_distrib)
qed

lemma AddDate_days: "AddDate t 0 0 k = t + k * nsPerDay"
proof -
  obtain y m d where c: "DateOf t = (y, m, d)" by (cases "DateOf t") auto
  show ?thesis unfolding AddDate_eq [OF c] by (simp add: daysFromCivil_day)
qed

lemma AddDate_six_months:
  shows "t + 181 * nsPerDay \<le> AddDate t 0 6 0"
    and "AddDate t 0 6 0 \<le> t + 184 * nsPerDay"
    and "t - 184 * nsPerDay \<le> AddDate t 0 (- 6) 0"
    and "AddDate t 0 (- 6) 0 \<le> t - 181 * nsPerDay"
proof -
  obtain y m d where c: "DateOf t = (y, m, d)" by (cases "DateOf t") auto
  have f: "AddDate t 0 6 0 = t + (daysFromCivil y (m + 6) d - daysFromCivil y m d) * nsPerDay"
    using AddDate_eq [OF c, of 0 6 0] by simp
  have g: "AddDate t 0 (- 6) 0 = t - (daysFromCivil y m d - daysFromCivil y (m - 6) d) * nsPerDay"
    using AddDate_eq [OF c, of 0 "- 6" 0] by (simp add: left_diff_distrib)
  note s = six_months [of y m d]
  show "t + 181 * nsPerDay \<le> AddDate t 0 6 0"
    unfolding f using mult_right_mono [OF s(1), of nsPerDay] nsPerDay_pos by simp
  show "AddDate t 0 6 0 \<le> t + 184 * nsPerDay"
    unfolding f using mult_right_mono [OF s(2), of nsPerDay] nsPerDay_pos by simp
  show "t - 184 * nsPerDay \<le> AddDate t 0 (- 6) 0"
    unfolding g using mult_right_mono [OF s(4), of nsPerDay] nsPerDay_pos by simp
  show "AddDate t 0 (- 6) 0 \<le> t - 181 * nsPerDay"
    unfolding g using mult_right_mono [OF s(3), of nsPerDay] nsPerDay_pos by simp
qed

section \<open>Dates in range convert back to themselves\<close>

lemma daysSinceEpoch_mono:
  assumes "y \<le> y'"
  shows "daysSinceEpoch y \<le> daysSinceEpoch y'"
  using assms
proof (induction y' rule: int_ge_induct)
  case base
  show ?case by simp
next
  case (step i)
  then show ?case using daysSinceEpoch_step [of i] by (simp split: if_splits)
qed

lemma yday_bounds:
  assumes "1 \<le> m" "m \<le> 12" "1 \<le> d" "d \<le> daysIn m y"
  shows "0 \<le> daysBefore (m - 1) + (if isLeap y \<and> 3 \<le> m then 1 else 0) + (d - 1)"
    and "daysBefore (m - 1) + (if isLeap y \<and> 3 \<le> m then 1 else 0) + (d - 1)
           < (if isLeap y then 366 else 365)"
  using month_cases [OF assms(1,2)] assms(3,4)
  by (elim disjE; simp add: daysIn_def daysBefore_simps split: if_splits)+

lemma month_unique:
  assumes "1 \<le> m" "m \<le> 12" "1 \<le> d" "d \<le> daysIn m y"
    and "1 \<le> m'" "m' \<le> 12" "1 \<le> d'" "d' \<le> daysIn m' y"
    and "daysBefore (m - 1) + (if isLeap y \<and> 3 \<le> m then 1 else 0) + (d - 1)
       = daysBefore (m' - 1) + (if isLeap y \<and> 3 \<le> m' then 1 else 0) + (d' - 1)"
  shows "m = m' \<and> d = d'"
  using month_cases [OF assms(1,2)] month_cases [OF assms(5,6)] assms(3,4,7,8,9)
  by (elim disjE; simp add: daysIn_def daysBefore_simps split: if_splits)

lemma civil_daysFromCivil:
  assumes "1 \<le> m" "m \<le> 12" "1 \<le> d" "d \<le> daysIn m y"
  shows "civil (daysFromCivil y m d) = (y, m, d)"
proof -
  obtain y' m' d' where c: "civil (daysFromCivil y m d) = (y', m', d')"
    by (cases "civil (daysFromCivil y m d)") auto
  note v = civil_correct [OF c]
  let ?yd = "daysBefore (m - 1) + (if isLeap y \<and> 3 \<le> m then 1 else 0) + (d - 1)"
  let ?yd' = "daysBefore (m' - 1) + (if isLeap y' \<and> 3 \<le> m' then 1 else 0) + (d' - 1)"
  have e: "daysSinceEpoch y + ?yd = daysSinceEpoch y' + ?yd'"
    using v(1) unfolding daysFromCivil_in_year [OF assms(1,2)] daysFromCivil_in_year [OF v(2,3)]
    by simp
  note b = yday_bounds [OF assms] and b' = yday_bounds [OF v(2,3,4,5)]
  have "\<not> y < y'"
  proof
    assume "y < y'"
    then have "daysSinceEpoch (y + 1) \<le> daysSinceEpoch y'"
      by (intro daysSinceEpoch_mono) simp
    then show False
      using e b b' daysSinceEpoch_step [of y] by (simp split: if_splits)
  qed
  moreover have "\<not> y' < y"
  proof
    assume "y' < y"
    then have "daysSinceEpoch (y' + 1) \<le> daysSinceEpoch y"
      by (intro daysSinceEpoch_mono) simp
    then show False
      using e b b' daysSinceEpoch_step [of y'] by (simp split: if_splits)
  qed
  ultimately have y: "y' = y" by simp
  have "m = m' \<and> d = d'"
    using month_unique [OF assms] v(2,3,4,5) e unfolding y by simp
  then show ?thesis using c y by simp
qed

section \<open>Shifting by months when the day of the month is kept\<close>

lemma daysFromCivil_years:
  "daysFromCivil (y + a) m d = daysFromCivil y (m + 12 * a) d"
proof -
  have e: "m + 12 * a - 1 = (m - 1) + a * 12" by simp
  have "(m + 12 * a - 1) div 12 = (m - 1) div 12 + a"
    and "(m + 12 * a - 1) mod 12 = (m - 1) mod 12"
    unfolding e by simp_all
  then show ?thesis
    by (simp add: daysFromCivil_def Let_def add.assoc add.commute [of a])
qed

lemma AddDate_years: "AddDate t a 0 0 = AddDate t 0 (12 * a) 0"
proof -
  obtain y m d where c: "DateOf t = (y, m, d)" by (cases "DateOf t") auto
  show ?thesis
    unfolding AddDate_eq [OF c] by (simp add: daysFromCivil_years)
qed

lemma daysIn_ge_28:
  assumes "1 \<le> m" "m \<le> 12"
  shows "28 \<le> daysIn m y"
  using month_cases [OF assms]
  by (elim disjE; simp add: daysIn_def daysBefore_simps)

lemma AddDate_day_number:
  assumes "DateOf t = (y, m, d)"
  shows "AddDate t 0 k 0 div nsPerDay
    = daysFromCivil (y + (m + k - 1) div 12) ((m + k - 1) mod 12 + 1) d"
proof -
  have n: "daysFromCivil y (m + k) d
      = daysFromCivil (y + (m + k - 1) div 12) ((m + k - 1) mod 12 + 1) d"
    using daysFromCivil_norm [of y "m + k" 0 d] by simp
  have "daysFromCivil y m d = t div nsPerDay"
    using civil_correct(1) assms(1) by (simp add: DateOf_def)
  then have "AddDate t 0 k 0 = t mod nsPerDay + daysFromCivil y (m + k) d * nsPerDay"
    unfolding AddDate_eq [OF assms(1)]
    by (simp add: left_diff_distrib minus_div_mult_eq_mod [symmetric])
  moreover have "(t mod nsPerDay + q * nsPerDay) div nsPerDay = q" for q
    using nsPerDay_pos by simp
  ultimately show ?thesis
    using n by simp
qed

lemma DateOf_AddDate_months_le_28:
  assumes "DateOf t = (y, m, d)" and "d \<le> 28"
  shows "DateOf (AddDate t 0 k 0) = (y + (m + k - 1) div 12, (m + k - 1) mod 12 + 1, d)"
proof -
  define y' r where "y' = y + (m + k - 1) div 12" and "r = (m + k - 1) mod 12 + 1"
  have r: "1 \<le> r" "r \<le> 12" by (simp_all add: r_def)
  have d: "1 \<le> d" using civil_correct(4) assms(1) by (simp add: DateOf_def)
  have "civil (daysFromCivil y' r d) = (y', r, d)"
    using r d assms(2) daysIn_ge_28 [OF r, of y'] by (intro civil_daysFromCivil) simp_all
  then show ?thesis
    using AddDate_day_number [OF assms(1), of k] by (simp add: DateOf_def y'_def r_def)
qed

lemma keepsDay_le_28:
  assumes "dayOfMonth t \<le> 28"
  shows "keepsDay t k"
proof -
  obtain y m d where c: "DateOf t = (y, m, d)" by (cases "DateOf t") auto
  then have d: "d \<le> 28" using assms by (simp add: dayOfMonth_def)
  show ?thesis
    using DateOf_AddDate_months_le_28 [OF c d, of "- k"] c
    by (simp add: keepsDay_def dayOfMonth_def)
qed

lemma DateOf_AddDate_months:
  assumes "DateOf t = (y, m, d)" and "dayOfMonth (AddDate t 0 k 0) = d"
  shows "DateOf (AddDate t 0 k 0) = (y + (m + k - 1) div 12, (m + k - 1) mod 12 + 1, d)"
proof -
  define y' r where "y' = y + (m + k - 1) div 12" and "r = (m + k - 1) mod 12 + 1"
  have r: "1 \<le> r" "r \<le> 12" by (simp_all add: r_def)
  have n: "AddDate t 0 k 0 div nsPerDay = daysFromCivil y' r d"
    using AddDate_day_number [OF assms(1), of k] by (simp add: y'_def r_def)
  obtain y2 m2 d2 where c2: "civil (daysFromCivil y' r d) = (y2, m2, d2)"
    by (cases "civil (daysFromCivil y' r d)") auto
  have d2: "d2 = d"
    using assms(2) c2 n by (simp add: dayOfMonth_def DateOf_def)
  note v = civil_correct [OF c2]
  have "daysFromCivil y2 m2 (1 + (d - 1)) = daysFromCivil y' r (1 + (d - 1))"
    using v(1) d2 by simp
  then have e: "daysFromCivil y2 m2 1 = daysFromCivil y' r 1"
    unfolding daysFromCivil_day by simp
  have a1: "civil (daysFromCivil y2 m2 1) = (y2, m2, 1)"
    using v(2,3) daysIn_ge_28 [OF v(2,3), of y2] by (intro civil_daysFromCivil) simp_all
  have a2: "civil (daysFromCivil y' r 1) = (y', r, 1)"
    using r daysIn_ge_28 [OF r, of y'] by (intro civil_daysFromCivil) simp_all
  have "(y2, m2, 1 :: int) = (y', r, 1)"
    by (rule trans [OF a1 [unfolded e, symmetric] a2])
  then have "y2 = y'" "m2 = r"
    by simp_all
  then show ?thesis
    using c2 d2 n by (simp add: DateOf_def y'_def r_def)
qed

lemma AddDate_months_compose:
  assumes "dayOfMonth (AddDate t 0 k 0) = dayOfMonth t"
  shows "AddDate (AddDate t 0 k 0) 0 j 0 = AddDate t 0 (k + j) 0"
proof -
  obtain y m d where c: "DateOf t = (y, m, d)" by (cases "DateOf t") auto
  then have d: "dayOfMonth (AddDate t 0 k 0) = d" using assms by (simp add: dayOfMonth_def)
  define y' r where "y' = y + (m + k - 1) div 12" and "r = (m + k - 1) mod 12"
  have c': "DateOf (AddDate t 0 k 0) = (y', r + 1, d)"
    using DateOf_AddDate_months [OF c d] by (simp add: y'_def r_def)
  have n1: "daysFromCivil y' (r + 1 + j) d = daysFromCivil y (m + k + j) d"
    unfolding y'_def r_def by (rule daysFromCivil_norm)
  have n2: "daysFromCivil y' (r + 1) d = daysFromCivil y (m + k) d"
    using daysFromCivil_norm [of y "m + k" 0 d] by (simp add: y'_def r_def)
  have "AddDate (AddDate t 0 k 0) 0 j 0
      = AddDate t 0 k 0
        + (daysFromCivil (y' + 0) (r + 1 + j) (d + 0) - daysFromCivil y' (r + 1) d) * nsPerDay"
    by (rule AddDate_eq [OF c'])
  then have e1: "AddDate (AddDate t 0 k 0) 0 j 0
      = AddDate t 0 k 0
        + (daysFromCivil y (m + k + j) d - daysFromCivil y (m + k) d) * nsPerDay"
    by (simp only: add_0_right n1 n2)
  have "AddDate t 0 k 0
      = t + (daysFromCivil (y + 0) (m + k) (d + 0) - daysFromCivil y m d) * nsPerDay"
    by (rule AddDate_eq [OF c])
  then have e2: "AddDate t 0 k 0
      = t + (daysFromCivil y (m + k) d - daysFromCivil y m d) * nsPerDay"
    by (simp only: add_0_right)
  have "AddDate t 0 (k + j) 0
      = t + (daysFromCivil (y + 0) (m + (k + j)) (d + 0) - daysFromCivil y m d) * nsPerDay"
    by (rule AddDate_eq [OF c])
  then have e3: "AddDate t 0 (k + j) 0
      = t + (daysFromCivil y (m + k + j) d - daysFromCivil y m d) * nsPerDay"
    by (simp only: add_0_right add.assoc)
  show ?thesis
    unfolding e1 e3 unfolding e2 by (simp add: left_diff_distrib)
qed

lemma months_back_in_year:
  assumes "1 \<le> m" "m \<le> 12"
  shows "daysFromCivil y (m - 1) d < daysFromCivil y m d"
    and "daysFromCivil y (m - 3) d < daysFromCivil y m d"
  using month_cases [OF assms]
  by (elim disjE;
      simp add: daysFromCivil_def Let_def daysBefore_simps daysSinceEpoch_pred)+

lemma months_back:
  shows "daysFromCivil y (m - 1) d < daysFromCivil y m d"
    and "daysFromCivil y (m - 3) d < daysFromCivil y m d"
proof -
  define y' r where "y' = y + (m - 1) div 12" and "r = (m - 1) mod 12 + 1"
  have r: "1 \<le> r" "r \<le> 12" by (simp_all add: r_def)
  have a: "daysFromCivil y m d = daysFromCivil y' r d"
    using daysFromCivil_norm [of y m 0 d] by (simp add: y'_def r_def)
  have b: "daysFromCivil y (m - 1) d = daysFromCivil y' (r - 1) d"
    using daysFromCivil_norm [of y m "- 1" d] by (simp add: y'_def r_def)
  have c: "daysFromCivil y (m - 3) d = daysFromCivil y' (r - 3) d"
    using daysFromCivil_norm [of y m "- 3" d] by (simp add: y'_def r_def)
  show "daysFromCivil y (m - 1) d < daysFromCivil y m d"
    and "daysFromCivil y (m - 3) d < daysFromCivil y m d"
    unfolding a b c using months_back_in_year [OF r] by blast+
qed

lemma years_back:
  shows "daysFromCivil y (m - 12) d < daysFromCivil y (m - 6) d"
    and "daysFromCivil y (m - 24) d < daysFromCivil y (m - 6) d"
    and "daysFromCivil y (m - 6) d < daysFromCivil y m d"
  using six_months(3) [of y m d] six_months(3) [of y "m - 6" d]
    six_months(3) [of y "m - 12" d] six_months(3) [of y "m - 18" d]
  by simp_all

lemma AddDate_back:
  shows "AddDate t 0 (- 1) 0 < t"
    and "AddDate t 0 (- 3) 0 < t"
    and "AddDate t 0 (- 6) 0 < t"
    and "AddDate t (- 1) 0 0 < AddDate t 0 (- 6) 0"
    and "AddDate t (- 2) 0 0 < AddDate t 0 (- 6) 0"
proof -
  obtain y m d where c: "DateOf t = (y, m, d)" by (cases "DateOf t") auto
  have lt: "t + (a - e) * nsPerDay < t + (b - e) * nsPerDay" if "a < b" for a b e :: int
    using that nsPerDay_pos by simp
  have e: "AddDate t 0 k 0 = t + (daysFromCivil y (m + k) d - daysFromCivil y m d) * nsPerDay"
    for k
    using AddDate_eq [OF c, of 0 k 0] by simp
  show "AddDate t 0 (- 1) 0 < t"
    using lt [OF months_back(1) [of y m d], of "daysFromCivil y m d"]
    unfolding e by simp
  show "AddDate t 0 (- 3) 0 < t"
    using lt [OF months_back(2) [of y m d], of "daysFromCivil y m d"]
    unfolding e by simp
  show "AddDate t 0 (- 6) 0 < t"
    using lt [OF years_back(3) [of y m d], of "daysFromCivil y m d"]
    unfolding e by simp
  show "AddDate t (- 1) 0 0 < AddDate t 0 (- 6) 0"
    using lt [OF years_back(1) [of y m d], of "daysFromCivil y m d"]
    unfolding AddDate_years e by simp
  show "AddDate t (- 2) 0 0 < AddDate t 0 (- 6) 0"
    using lt [OF years_back(2) [of y m d], of "daysFromCivil y m d"]
    unfolding AddDate_years e by simp
qed

section \<open>The six-month loop terminates\<close>

termination sixMonthWindows
proof (relation "measure (\<lambda>(bound, timeIndex, _). nat (timeIndex - bound + 1))")
  show "wf (measure (\<lambda>(bound, timeIndex, _). nat (timeIndex - bound + 1)))"
    by simp
next
  fix bound timeIndex :: Time and intervalPartition :: "timePeriod list"
  assume "After timeIndex bound \<or> Equal timeIndex bound"
  then have "bound \<le> timeIndex"
    by (auto simp: After_def Equal_def)
  moreover have "AddDate timeIndex 0 (- 6) 0 < timeIndex"
    using AddDate_six_months(4) [of timeIndex] nsPerDay_pos by linarith
  ultimately show
    "((bound, AddDate timeIndex 0 (- 6) 0,
        intervalPartition @ [\<lparr>pstart = timeIndex, pend = AddDate timeIndex 0 6 0\<rparr>]),
      (bound, timeIndex, intervalPartition))
     \<in> measure (\<lambda>(bound, timeIndex, _). nat (timeIndex - bound + 1))"
    by simp
qed

declare sixMonthWindows.simps [simp del]

section \<open>Partitioner: the six-month windows\<close>

lemma six_month_induct [case_names step]:
  assumes "\<And>t. (bound \<le> t \<Longrightarrow> P (AddDate t 0 (- 6) 0)) \<Longrightarrow> P t"
  shows "P t"
proof (induction "nat (t - bound + 1)" arbitrary: t rule: less_induct)
  case less
  show ?case
  proof (rule assms)
    assume b: "bound \<le> t"
    have "AddDate t 0 (- 6) 0 < t"
      using AddDate_six_months(4) [of t] nsPerDay_pos by linarith
    then have "nat (AddDate t 0 (- 6) 0 - bound + 1) < nat (t - bound + 1)"
      using b by simp
    then show "P (AddDate t 0 (- 6) 0)" by (rule less)
  qed
qed

lemma sixMonthWindows_append:
  "sixMonthWindows bound t acc = acc @ sixMonthWindows bound t []"
proof (induction t arbitrary: acc rule: six_month_induct [where bound = bound])
  case (step t)
  show ?case
  proof (cases "bound \<le> t")
    case True
    let ?p = "\<lparr>pstart = t, pend = AddDate t 0 6 0\<rparr>"
    have c: "After t bound \<or> Equal t bound"
      using True by (auto simp: After_def Equal_def)
    have "sixMonthWindows bound t acc = sixMonthWindows bound (AddDate t 0 (- 6) 0) (acc @ [?p])"
      using c by (subst sixMonthWindows.simps) simp
    also have "\<dots> = (acc @ [?p]) @ sixMonthWindows bound (AddDate t 0 (- 6) 0) []"
      by (rule step [OF True])
    also have "\<dots> = acc @ sixMonthWindows bound (AddDate t 0 (- 6) 0) [?p]"
      using step [OF True, of "[?p]"] by simp
    also have "sixMonthWindows bound (AddDate t 0 (- 6) 0) [?p] = sixMonthWindows bound t []"
      using c by (subst (2) sixMonthWindows.simps) simp
    finally show ?thesis .
  next
    case False
    then have "\<not> (After t bound \<or> Equal t bound)"
      by (auto simp: After_def Equal_def)
    then show ?thesis by (simp add: sixMonthWindows.simps)
  qed
qed

lemma sixMonthWindows_unfold:
  "sixMonthWindows bound t []
     = (if bound \<le> t
        then \<lparr>pstart = t, pend = AddDate t 0 6 0\<rparr> # sixMonthWindows bound (AddDate t 0 (- 6) 0) []
        else [])"
proof (cases "bound \<le> t")
  case True
  then have "After t bound \<or> Equal t bound" by (auto simp: After_def Equal_def)
  then have "sixMonthWindows bound t []
      = sixMonthWindows bound (AddDate t 0 (- 6) 0) [\<lparr>pstart = t, pend = AddDate t 0 6 0\<rparr>]"
    by (subst sixMonthWindows.simps) simp
  then show ?thesis
    using True sixMonthWindows_append [of bound _ "[\<lparr>pstart = t, pend = AddDate t 0 6 0\<rparr>]"]
    by simp
next
  case False
  then have "\<not> (After t bound \<or> Equal t bound)" by (auto simp: After_def Equal_def)
  then show ?thesis using False by (simp add: sixMonthWindows.simps)
qed

lemma sixMonthWindows_ends:
  "\<forall>p \<in> set (sixMonthWindows bound t []). pend p \<le> t + 184 * nsPerDay"
proof (induction t rule: six_month_induct [where bound = bound])
  case (step t)
  show ?case
  proof (cases "bound \<le> t")
    case True
    have "AddDate t 0 (- 6) 0 + 184 * nsPerDay \<le> t + 184 * nsPerDay"
      using AddDate_six_months(4) [of t] nsPerDay_pos by linarith
    then show ?thesis
      using True step [OF True] AddDate_six_months(2) [of t]
      by (subst sixMonthWindows_unfold) fastforce
  next
    case False
    then show ?thesis by (subst sixMonthWindows_unfold) simp
  qed
qed

lemma sixMonthWindows_sorted:
  "sorted_wrt (\<lambda>p q. pend q \<le> pend p) (sixMonthWindows bound t [])"
proof (induction t rule: six_month_induct [where bound = bound])
  case (step t)
  show ?case
  proof (cases "bound \<le> t")
    case True
    have "pend p \<le> AddDate t 0 6 0"
      if "p \<in> set (sixMonthWindows bound (AddDate t 0 (- 6) 0) [])" for p
    proof -
      have "pend p \<le> AddDate t 0 (- 6) 0 + 184 * nsPerDay"
        using sixMonthWindows_ends that by blast
      then show ?thesis
        using AddDate_six_months(4) [of t] AddDate_six_months(1) [of t] nsPerDay_pos
        by linarith
    qed
    then show ?thesis
      using True step [OF True] by (subst sixMonthWindows_unfold) simp
  next
    case False
    then show ?thesis by (subst sixMonthWindows_unfold) simp
  qed
qed

text \<open>
  C4. Whatever the label, the clock and the rounding, the ranges that
  \<open>getIntervalPartition\<close> returns are in reverse chronological order: the end of each
  range is at or after the end of every range that follows it.
\<close>

theorem getIntervalPartition_reverse_chronological:
  "sorted_wrt (\<lambda>p q. pend q \<le> pend p) (getIntervalPartition E L time_Now interval)"
  using nsPerDay_pos
  by (simp add: getIntervalPartition_def Let_def sixMonthWindows_sorted AddDate_days)

section \<open>Partitioner: what the ranges cover\<close>

lemma sixMonthWindows_nonempty:
  assumes "bound \<le> t"
  shows "sixMonthWindows bound t [] \<noteq> []"
  using assms by (subst sixMonthWindows_unfold) simp

lemma six_months_from_kept_day:
  assumes "keepsDay n k"
  shows "AddDate (AddDate n 0 (- k) 0) 0 6 0 = AddDate n 0 (- k + 6) 0"
    and "AddDate (AddDate n 0 (- k) 0) 0 (- 6) 0 = AddDate n 0 (- k - 6) 0"
    and "AddDate n 0 (- k - 6) 0 < AddDate n 0 (- k) 0"
proof -
  have c: "dayOfMonth (AddDate n 0 (- k) 0) = dayOfMonth n"
    using assms by (simp add: keepsDay_def)
  show "AddDate (AddDate n 0 (- k) 0) 0 6 0 = AddDate n 0 (- k + 6) 0"
    by (rule AddDate_months_compose [OF c])
  show b: "AddDate (AddDate n 0 (- k) 0) 0 (- 6) 0 = AddDate n 0 (- k - 6) 0"
    using AddDate_months_compose [OF c, of "- 6"] by simp
  show "AddDate n 0 (- k - 6) 0 < AddDate n 0 (- k) 0"
    using AddDate_back(3) [of "AddDate n 0 (- k) 0"] by (simp add: b)
qed

lemma one_year_windows:
  assumes "keepsDay n 6" "keepsDay n 12"
  shows "sixMonthWindows (AddDate n (- 1) 0 0) (AddDate n 0 (- 6) 0) []
      = [\<lparr>pstart = AddDate n 0 (- 6) 0, pend = n\<rparr>,
         \<lparr>pstart = AddDate n 0 (- 12) 0, pend = AddDate n 0 (- 6) 0\<rparr>]"
proof -
  note s6 = six_months_from_kept_day [OF assms(1), simplified]
    and s12 = six_months_from_kept_day [OF assms(2), simplified]
  have zero: "AddDate n 0 0 0 = n"
    using AddDate_days [of n 0] by simp
  have stop: "sixMonthWindows (AddDate n 0 (- 12) 0) (AddDate n 0 (- 18) 0) [] = []"
    using s12(3) by (subst sixMonthWindows_unfold) simp
  show ?thesis
    unfolding AddDate_years using s6(3)
    by (simp add: sixMonthWindows_unfold [of _ "AddDate n 0 (- 6) 0"]
        sixMonthWindows_unfold [of _ "AddDate n 0 (- 12) 0"] stop s6(1,2) s12(1,2) zero)
qed

lemma two_year_windows:
  assumes "keepsDay n 6" "keepsDay n 12" "keepsDay n 18" "keepsDay n 24"
  shows "sixMonthWindows (AddDate n (- 2) 0 0) (AddDate n 0 (- 6) 0) []
      = [\<lparr>pstart = AddDate n 0 (- 6) 0, pend = n\<rparr>,
         \<lparr>pstart = AddDate n 0 (- 12) 0, pend = AddDate n 0 (- 6) 0\<rparr>,
         \<lparr>pstart = AddDate n 0 (- 18) 0, pend = AddDate n 0 (- 12) 0\<rparr>,
         \<lparr>pstart = AddDate n 0 (- 24) 0, pend = AddDate n 0 (- 18) 0\<rparr>]"
proof -
  note s6 = six_months_from_kept_day [OF assms(1), simplified]
    and s12 = six_months_from_kept_day [OF assms(2), simplified]
    and s18 = six_months_from_kept_day [OF assms(3), simplified]
    and s24 = six_months_from_kept_day [OF assms(4), simplified]
  have zero: "AddDate n 0 0 0 = n"
    using AddDate_days [of n 0] by simp
  have stop: "sixMonthWindows (AddDate n 0 (- 24) 0) (AddDate n 0 (- 30) 0) [] = []"
    using s24(3) by (subst sixMonthWindows_unfold) simp
  show ?thesis
    unfolding AddDate_years using s6(3) s12(3) s18(3)
    by (simp add: sixMonthWindows_unfold [of _ "AddDate n 0 (- 6) 0"]
        sixMonthWindows_unfold [of _ "AddDate n 0 (- 12) 0"]
        sixMonthWindows_unfold [of _ "AddDate n 0 (- 18) 0"]
        sixMonthWindows_unfold [of _ "AddDate n 0 (- 24) 0"] stop
        s6(1,2) s12(1,2) s18(1,2) s24(1,2) zero)
qed

lemma cover_one_year_windows:
  assumes "keepsDay n 6" "keepsDay n 12"
  shows "cover (sixMonthWindows (AddDate n (- 1) 0 0) (AddDate n 0 (- 6) 0) [])
      = {AddDate n (- 1) 0 0 .. n}"
proof -
  note s6 = six_months_from_kept_day [OF assms(1), simplified]
  note o = AddDate_back(3) [of n] s6(3)
  have y1: "AddDate n (- 1) 0 0 = AddDate n 0 (- 12) 0"
    by (simp add: AddDate_years)
  show ?thesis
    unfolding one_year_windows [OF assms] unfolding y1 cover_def using o by auto
qed

lemma cover_two_year_windows:
  assumes "keepsDay n 6" "keepsDay n 12" "keepsDay n 18" "keepsDay n 24"
  shows "cover (sixMonthWindows (AddDate n (- 2) 0 0) (AddDate n 0 (- 6) 0) [])
      = {AddDate n (- 2) 0 0 .. n}"
proof -
  note s6 = six_months_from_kept_day [OF assms(1), simplified]
    and s12 = six_months_from_kept_day [OF assms(2), simplified]
    and s18 = six_months_from_kept_day [OF assms(3), simplified]
  note o = AddDate_back(3) [of n] s6(3) s12(3) s18(3)
  have y2: "AddDate n (- 2) 0 0 = AddDate n 0 (- 24) 0"
    by (simp add: AddDate_years)
  show ?thesis
    unfolding two_year_windows [OF assms] unfolding y2 cover_def using o by auto
qed

lemma labels_differ:
  assumes "distinct (supported L)"
  shows "TWOYEAR L \<noteq> YEAR L" "TWOYEAR L \<noteq> SIXMONTH L" "TWOYEAR L \<noteq> THREEMONTH L"
    "TWOYEAR L \<noteq> MONTH L" "TWOYEAR L \<noteq> WEEK L" "TWOYEAR L \<noteq> DAY L"
    "YEAR L \<noteq> SIXMONTH L" "YEAR L \<noteq> THREEMONTH L" "YEAR L \<noteq> MONTH L"
    "YEAR L \<noteq> WEEK L" "YEAR L \<noteq> DAY L"
    "SIXMONTH L \<noteq> THREEMONTH L" "SIXMONTH L \<noteq> MONTH L" "SIXMONTH L \<noteq> WEEK L"
    "SIXMONTH L \<noteq> DAY L"
    "THREEMONTH L \<noteq> MONTH L" "THREEMONTH L \<noteq> WEEK L" "THREEMONTH L \<noteq> DAY L"
    "MONTH L \<noteq> WEEK L" "MONTH L \<noteq> DAY L" "WEEK L \<noteq> DAY L"
  using assms by (simp_all add: supported_def)

lemma getIntervalPartition_by_label:
  fixes E :: "('f, 'n) env" and time_Now :: Time
  assumes "distinct (supported L)"
  defines "n \<equiv> AddDate (roundTime E time_Now) 0 0 1"
  shows "getIntervalPartition E L time_Now (TWOYEAR L)
      = sixMonthWindows (AddDate n (- 2) 0 0) (AddDate n 0 (- 6) 0) []"
    and "getIntervalPartition E L time_Now (YEAR L)
      = sixMonthWindows (AddDate n (- 1) 0 0) (AddDate n 0 (- 6) 0) []"
    and "getIntervalPartition E L time_Now (SIXMONTH L)
      = [\<lparr>pstart = AddDate n 0 (- 6) 0, pend = n\<rparr>]"
    and "getIntervalPartition E L time_Now (THREEMONTH L)
      = [\<lparr>pstart = AddDate n 0 (- 3) 0, pend = n\<rparr>]"
    and "getIntervalPartition E L time_Now (MONTH L)
      = [\<lparr>pstart = AddDate n 0 (- 1) 0, pend = n\<rparr>]"
    and "getIntervalPartition E L time_Now (WEEK L)
      = [\<lparr>pstart = n - 2 * nsPerDay, pend = n\<rparr>,
         \<lparr>pstart = n - 5 * nsPerDay, pend = n - 2 * nsPerDay\<rparr>,
         \<lparr>pstart = n - 8 * nsPerDay, pend = n - 5 * nsPerDay\<rparr>]"
    and "getIntervalPartition E L time_Now (DAY L)
      = [\<lparr>pstart = n - 2 * nsPerDay, pend = n\<rparr>]"
  using labels_differ [OF assms(1)] labels_differ [OF assms(1), symmetric] unfolding n_def
  by (simp_all add: getIntervalPartition_def Let_def AddDate_days)

lemma loopKeepsDay_le_28:
  assumes "dayOfMonth nowRounded \<le> 28"
  shows "loopKeepsDay L interval nowRounded"
  by (simp add: loopKeepsDay_def keepsDay_le_28 [OF assms])

text \<open>
  C1, as the code has it. With distinct labels, for every supported label the
  partitioner returns at least one range. The window of a label starts at
  \<open>windowStart\<close> (two years, one year, six, three or one month, eight days, two days
  before \<open>nowRounded\<close>, the rounded clock reading plus one day), lies strictly before
  \<open>nowRounded\<close> and ends there. The union of the ranges is exactly that window for the
  six-month, three-month, one-month, one-week and one-day labels, and for the two-year
  and one-year labels whenever the months that the loop visits have the day of the
  month of \<open>nowRounded\<close> (every day up to the 28th, and for instance January 31). The
  single range of the one-day label spans two days: from one day before the rounded
  clock reading to one day after it.
\<close>

theorem getIntervalPartition_covers:
  assumes "distinct (supported L)" and "interval \<in> set (supported L)"
  shows "getIntervalPartition E L time_Now interval \<noteq> []
    \<and> windowStart L interval (AddDate (roundTime E time_Now) 0 0 1)
        < AddDate (roundTime E time_Now) 0 0 1
    \<and> (loopKeepsDay L interval (AddDate (roundTime E time_Now) 0 0 1)
        \<longrightarrow> cover (getIntervalPartition E L time_Now interval)
            = {windowStart L interval (AddDate (roundTime E time_Now) 0 0 1)
                 .. AddDate (roundTime E time_Now) 0 0 1})
    \<and> (interval = DAY L
        \<longrightarrow> getIntervalPartition E L time_Now interval
            = [\<lparr>pstart = roundTime E time_Now - nsPerDay,
                pend = roundTime E time_Now + nsPerDay\<rparr>])"
proof -
  define n where "n = AddDate (roundTime E time_Now) 0 0 1"
  have n: "n = roundTime E time_Now + nsPerDay"
    by (simp add: n_def AddDate_days)
  note p = getIntervalPartition_by_label [OF assms(1), of E time_Now, folded n_def]
  note b = AddDate_back [of n]
  note d = labels_differ [OF assms(1)] labels_differ [OF assms(1), symmetric]
  consider "interval = TWOYEAR L" | "interval = YEAR L" | "interval = SIXMONTH L"
    | "interval = THREEMONTH L" | "interval = MONTH L" | "interval = WEEK L"
    | "interval = DAY L"
    using assms(2) by (auto simp: supported_def)
  then have "getIntervalPartition E L time_Now interval \<noteq> []
    \<and> windowStart L interval n < n
    \<and> (loopKeepsDay L interval n
        \<longrightarrow> cover (getIntervalPartition E L time_Now interval)
            = {windowStart L interval n .. n})
    \<and> (interval = DAY L
        \<longrightarrow> getIntervalPartition E L time_Now interval
            = [\<lparr>pstart = n - 2 * nsPerDay, pend = n\<rparr>])"
  proof cases
    case 1
    have "windowStart L interval n < n"
      using b(3,5) 1 by (simp add: windowStart_def)
    moreover have "getIntervalPartition E L time_Now interval \<noteq> []"
      unfolding 1 p using b(5) by (intro sixMonthWindows_nonempty) simp
    moreover have "cover (getIntervalPartition E L time_Now interval)
        = {windowStart L interval n .. n}" if "loopKeepsDay L interval n"
    proof -
      from that 1 have k: "keepsDay n 6" "keepsDay n 12" "keepsDay n 18" "keepsDay n 24"
        by (simp_all add: loopKeepsDay_def)
      show ?thesis
        unfolding 1 p cover_two_year_windows [OF k] by (simp add: windowStart_def)
    qed
    ultimately show ?thesis using 1 d by simp
  next
    case 2
    have "windowStart L interval n < n"
      using b(3,4) 2 d by (simp add: windowStart_def)
    moreover have "getIntervalPartition E L time_Now interval \<noteq> []"
      unfolding 2 p using b(4) by (intro sixMonthWindows_nonempty) simp
    moreover have "cover (getIntervalPartition E L time_Now interval)
        = {windowStart L interval n .. n}" if "loopKeepsDay L interval n"
    proof -
      from that 2 d have k: "keepsDay n 6" "keepsDay n 12"
        by (simp_all add: loopKeepsDay_def)
      show ?thesis
        unfolding 2 p cover_one_year_windows [OF k] using d by (simp add: windowStart_def)
    qed
    ultimately show ?thesis using 2 d by simp
  next
    case 3
    then show ?thesis using b(3) d by (simp add: p windowStart_def cover_def)
  next
    case 4
    then show ?thesis using b(2) d by (simp add: p windowStart_def cover_def)
  next
    case 5
    then show ?thesis using b(1) d by (simp add: p windowStart_def cover_def)
  next
    case 6
    have "cover (getIntervalPartition E L time_Now interval) = {n - 8 * nsPerDay .. n}"
      unfolding 6 p cover_def using nsPerDay_pos by auto
    then show ?thesis
      using 6 d nsPerDay_pos by (simp add: p windowStart_def AddDate_days)
  next
    case 7
    then show ?thesis
      using d nsPerDay_pos by (simp add: p windowStart_def cover_def AddDate_days)
  qed
  then show ?thesis
    unfolding n_def [symmetric] by (simp add: n)
qed

text \<open>
  C2, as the code has it. With distinct labels, the one-week label yields exactly three
  ranges that tile the eight days before \<open>nowRounded\<close> (seven days before the rounded
  clock reading to one day after it), the most recent first; in the order of the
  sequence their sizes are two days, three days and three days.
\<close>

theorem getIntervalPartition_week:
  assumes "distinct (supported L)"
  shows "getIntervalPartition E L time_Now (WEEK L)
      = [\<lparr>pstart = roundTime E time_Now - nsPerDay, pend = roundTime E time_Now + nsPerDay\<rparr>,
         \<lparr>pstart = roundTime E time_Now - 4 * nsPerDay,
          pend = roundTime E time_Now - nsPerDay\<rparr>,
         \<lparr>pstart = roundTime E time_Now - 7 * nsPerDay,
          pend = roundTime E time_Now - 4 * nsPerDay\<rparr>]
    \<and> spans (getIntervalPartition E L time_Now (WEEK L))
      = [2 * nsPerDay, 3 * nsPerDay, 3 * nsPerDay]"
  unfolding getIntervalPartition_by_label(6) [OF assms]
  by (simp add: AddDate_days spans_def)

theorem getIntervalPartition_week_witness:
  "getIntervalPartition sampleEnv sampleLabels 0 ''WEEK''
     = [\<lparr>pstart = - nsPerDay, pend = nsPerDay\<rparr>,
        \<lparr>pstart = - (4 * nsPerDay), pend = - nsPerDay\<rparr>,
        \<lparr>pstart = - (7 * nsPerDay), pend = - (4 * nsPerDay)\<rparr>]"
proof -
  have l: "distinct (supported sampleLabels)"
    by (simp add: supported_def sampleLabels_def)
  show ?thesis
    using getIntervalPartition_week [OF l, of sampleEnv 0]
    by (simp add: sampleLabels_def sampleEnv_def)
qed

theorem week_sizes_most_recent_first:
  "spans (getIntervalPartition sampleEnv sampleLabels 0 ''WEEK'')
     = [2 * nsPerDay, 3 * nsPerDay, 3 * nsPerDay]
   \<and> [2 * nsPerDay, 3 * nsPerDay, 3 * nsPerDay] \<noteq> [3 * nsPerDay, 3 * nsPerDay, 2 * nsPerDay]"
  by (simp add: getIntervalPartition_def Let_def sampleLabels_def sampleEnv_def AddDate_days
      spans_def nsPerDay_def)

section \<open>The sample environment at work\<close>

lemma sample_labels:
  "distinct (supported sampleLabels)"
  "ToUpper sampleEnv ''day'' = ''DAY''" "ToUpper sampleEnv ''week'' = ''WEEK''"
  "''DAY'' \<in> set (supported sampleLabels)" "''WEEK'' \<in> set (supported sampleLabels)"
  "DAY sampleLabels = ''DAY''" "WEEK sampleLabels = ''WEEK''"
  by (simp_all add: supported_def sampleLabels_def sampleEnv_def asciiUpper_def)

lemma sample_partition:
  "getIntervalPartition sampleEnv sampleLabels 0 ''DAY''
     = [] @ \<lparr>pstart = - nsPerDay, pend = nsPerDay\<rparr> # []"
  "getIntervalPartition sampleEnv sampleLabels 0 ''WEEK''
     = [\<lparr>pstart = - nsPerDay, pend = nsPerDay\<rparr>]
       @ \<lparr>pstart = - (4 * nsPerDay), pend = - nsPerDay\<rparr>
       # [\<lparr>pstart = - (7 * nsPerDay), pend = - (4 * nsPerDay)\<rparr>]"
  using getIntervalPartition_by_label(6,7) [OF sample_labels(1), of sampleEnv 0]
  by (simp_all add: sample_labels AddDate_days sampleEnv_def)

lemma buildGdaxRequest_returns:
  "\<exists>requestString. buildGdaxRequest granularity start end = Inr requestString"
  by (simp add: buildGdaxRequest_def)

lemma scripted_Get:
  "http_Get sampleEnv url (sampleWorld (r # script))
     = (r, \<lparr>now = 0, net = script, requests = [url]\<rparr>)"
  "http_Get sampleEnv url \<lparr>now = 0, net = r # script, requests = us\<rparr>
     = (r, \<lparr>now = 0, net = script, requests = us @ [url]\<rparr>)"
  by (simp_all add: http_Get_def sampleEnv_def scripted_def sampleWorld_def)

lemma sample_first_week_request:
  assumes "buildGdaxRequest granularity (- nsPerDay) nsPerDay = Inr url"
  shows "fetchLoop sampleEnv granularity [\<lparr>pstart = - nsPerDay, pend = nsPerDay\<rparr>] []
      (sampleWorld ((Some \<lparr>StatusCode = 200, Body = ''[]''\<rparr>, None) # script))
    = (Inr (Some [], None), \<lparr>now = 0, net = script, requests = [url]\<rparr>)"
proof -
  have "decodeBuckets sampleEnv ''[]'' = Inr []"
    by (simp add: sampleEnv_def sampleDecodeBuckets_def)
  then show ?thesis
    using assms by (simp add: scripted_Get filterBuckets_def)
qed

section \<open>Partitioner: month ends\<close>

lemma AddDate_at_midnight:
  assumes "civil k = (y, m, d)"
  shows "AddDate (k * nsPerDay) a b c = daysFromCivil (y + a) (m + b) (d + c) * nsPerDay"
  using assms nsPerDay_pos by (simp add: AddDate_def DateOf_def Clock_def Date_def)

text \<open>
  On 2017-08-30 \<open>nowRounded\<close> is 2017-08-31, day 17409 since 1970-01-01. February has
  no day 31, so six months before \<open>nowRounded\<close> is 2017-03-03, and six months after
  that is 2017-09-03: the two-year windows run from 2015-09-03 (day 16681) to 2017-09-03
  (day 17412), three days after the window from 2015-08-31 (day 16678) to \<open>nowRounded\<close>.
\<close>

lemma two_year_windows_from_august_31:
  shows "getIntervalPartition sampleEnv sampleLabels (17408 * nsPerDay) ''TWOYEAR''
     = [\<lparr>pstart = 17228 * nsPerDay, pend = 17412 * nsPerDay\<rparr>,
        \<lparr>pstart = 17047 * nsPerDay, pend = 17228 * nsPerDay\<rparr>,
        \<lparr>pstart = 16863 * nsPerDay, pend = 17047 * nsPerDay\<rparr>,
        \<lparr>pstart = 16681 * nsPerDay, pend = 16863 * nsPerDay\<rparr>]"
    "windowStart sampleLabels ''TWOYEAR'' (17409 * nsPerDay) = 16678 * nsPerDay"
    "cover (getIntervalPartition sampleEnv sampleLabels (17408 * nsPerDay) ''TWOYEAR'')
     \<noteq> {windowStart sampleLabels ''TWOYEAR'' (17409 * nsPerDay) .. 17409 * nsPerDay}"
proof -
  have c: "civil 17409 = (2017, 8, 31)" "civil 17228 = (2017, 3, 3)"
    "civil 17047 = (2016, 9, 3)" "civil 16863 = (2016, 3, 3)" "civil 16681 = (2015, 9, 3)"
    by (simp_all add: civil_def year_yday_def month_day_def monthOfDay_def unixEpochDays_def
        isLeap_def daysBefore_simps Let_def)
  have f: "daysFromCivil 2015 8 31 = 16678" "daysFromCivil 2017 2 31 = 17228"
    "daysFromCivil 2017 9 3 = 17412" "daysFromCivil 2016 9 3 = 17047"
    "daysFromCivil 2016 3 3 = 16863" "daysFromCivil 2015 9 3 = 16681"
    "daysFromCivil 2015 3 3 = 16497" "daysFromCivil 2017 (- 3) 3 = 17047"
    "daysFromCivil 2016 15 3 = 17228" "daysFromCivil 2016 (- 3) 3 = 16681"
    "daysFromCivil 2015 15 3 = 16863"
    by (simp_all add: daysFromCivil_def daysSinceEpoch_def unixEpochDays_def isLeap_def
        daysBefore_simps Let_def)
  have a: "AddDate (17409 * nsPerDay) (- 2) 0 0 = 16678 * nsPerDay"
    "AddDate (17409 * nsPerDay) 0 (- 6) 0 = 17228 * nsPerDay"
    "AddDate (17228 * nsPerDay) 0 6 0 = 17412 * nsPerDay"
    "AddDate (17228 * nsPerDay) 0 (- 6) 0 = 17047 * nsPerDay"
    "AddDate (17047 * nsPerDay) 0 6 0 = 17228 * nsPerDay"
    "AddDate (17047 * nsPerDay) 0 (- 6) 0 = 16863 * nsPerDay"
    "AddDate (16863 * nsPerDay) 0 6 0 = 17047 * nsPerDay"
    "AddDate (16863 * nsPerDay) 0 (- 6) 0 = 16681 * nsPerDay"
    "AddDate (16681 * nsPerDay) 0 6 0 = 16863 * nsPerDay"
    "AddDate (16681 * nsPerDay) 0 (- 6) 0 = 16497 * nsPerDay"
    by (simp_all add: AddDate_at_midnight [OF c(1)] AddDate_at_midnight [OF c(2)]
        AddDate_at_midnight [OF c(3)] AddDate_at_midnight [OF c(4)]
        AddDate_at_midnight [OF c(5)] f)
  have n: "AddDate (roundTime sampleEnv (17408 * nsPerDay)) 0 0 1 = 17409 * nsPerDay"
    by (simp add: AddDate_days sampleEnv_def)
  have o: "16678 * nsPerDay \<le> 17228 * nsPerDay" "16678 * nsPerDay \<le> 17047 * nsPerDay"
    "16678 * nsPerDay \<le> 16863 * nsPerDay" "16678 * nsPerDay \<le> 16681 * nsPerDay"
    "\<not> 16678 * nsPerDay \<le> 16497 * nsPerDay"
    using nsPerDay_pos by simp_all
  show "getIntervalPartition sampleEnv sampleLabels (17408 * nsPerDay) ''TWOYEAR''
     = [\<lparr>pstart = 17228 * nsPerDay, pend = 17412 * nsPerDay\<rparr>,
        \<lparr>pstart = 17047 * nsPerDay, pend = 17228 * nsPerDay\<rparr>,
        \<lparr>pstart = 16863 * nsPerDay, pend = 17047 * nsPerDay\<rparr>,
        \<lparr>pstart = 16681 * nsPerDay, pend = 16863 * nsPerDay\<rparr>]"
    using getIntervalPartition_by_label(1) [OF sample_labels(1), of sampleEnv "17408 * nsPerDay"]
    unfolding n a
    by (simp add: sampleLabels_def sixMonthWindows_unfold [of "16678 * nsPerDay"] a o)
  then have p: "17412 * nsPerDay
      \<in> cover (getIntervalPartition sampleEnv sampleLabels (17408 * nsPerDay) ''TWOYEAR'')"
    using nsPerDay_pos by (simp add: cover_def)
  show w: "windowStart sampleLabels ''TWOYEAR'' (17409 * nsPerDay) = 16678 * nsPerDay"
    by (simp add: windowStart_def sampleLabels_def a)
  have "17412 * nsPerDay \<notin> {16678 * nsPerDay .. 17409 * nsPerDay}"
    using nsPerDay_pos by simp
  then show "cover (getIntervalPartition sampleEnv sampleLabels (17408 * nsPerDay) ''TWOYEAR'')
     \<noteq> {windowStart sampleLabels ''TWOYEAR'' (17409 * nsPerDay) .. 17409 * nsPerDay}"
    unfolding w using p by blast
qed

text \<open>
  On 2017-01-30 \<open>nowRounded\<close> is 2017-01-31, day 17197. July and January have a day
  31, so the months that the two-year loop visits keep the day: 2016-07-31 (day 17013),
  2016-01-31 (16831), 2015-07-31 (16647) and 2015-01-31 (16466).
\<close>

lemma january_31_keeps_day:
  "loopKeepsDay sampleLabels ''TWOYEAR'' (17197 * nsPerDay)"
proof -
  have c: "civil 17197 = (2017, 1, 31)" "civil 17013 = (2016, 7, 31)"
    "civil 16831 = (2016, 1, 31)" "civil 16647 = (2015, 7, 31)" "civil 16466 = (2015, 1, 31)"
    by (simp_all add: civil_def year_yday_def month_day_def monthOfDay_def unixEpochDays_def
        isLeap_def daysBefore_simps Let_def)
  have f: "daysFromCivil 2017 (- 5) 31 = 17013" "daysFromCivil 2017 (- 11) 31 = 16831"
    "daysFromCivil 2017 (- 17) 31 = 16647" "daysFromCivil 2017 (- 23) 31 = 16466"
    by (simp_all add: daysFromCivil_def daysSinceEpoch_def unixEpochDays_def isLeap_def
        daysBefore_simps Let_def)
  have a: "AddDate (17197 * nsPerDay) 0 (- 6) 0 = 17013 * nsPerDay"
    "AddDate (17197 * nsPerDay) 0 (- 12) 0 = 16831 * nsPerDay"
    "AddDate (17197 * nsPerDay) 0 (- 18) 0 = 16647 * nsPerDay"
    "AddDate (17197 * nsPerDay) 0 (- 24) 0 = 16466 * nsPerDay"
    by (simp_all add: AddDate_at_midnight [OF c(1)] f)
  have d: "dayOfMonth (k * nsPerDay) = snd (snd (civil k))" for k
    using nsPerDay_pos by (simp add: dayOfMonth_def DateOf_def split: prod.splits)
  show ?thesis
    by (simp add: loopKeepsDay_def keepsDay_def sampleLabels_def a d c)
qed

theorem getIntervalPartition_covers_witness:
  "getIntervalPartition sampleEnv sampleLabels (17196 * nsPerDay) ''TWOYEAR'' \<noteq> []
   \<and> windowStart sampleLabels ''TWOYEAR'' (17197 * nsPerDay) < 17197 * nsPerDay
   \<and> cover (getIntervalPartition sampleEnv sampleLabels (17196 * nsPerDay) ''TWOYEAR'')
       = {windowStart sampleLabels ''TWOYEAR'' (17197 * nsPerDay) .. 17197 * nsPerDay}"
proof -
  have l: "distinct (supported sampleLabels)"
    by (rule sample_labels)
  have i: "''TWOYEAR'' \<in> set (supported sampleLabels)"
    by (simp add: supported_def sampleLabels_def)
  have n: "AddDate (roundTime sampleEnv (17196 * nsPerDay)) 0 0 1 = 17197 * nsPerDay"
    by (simp add: AddDate_days sampleEnv_def)
  show ?thesis
    using getIntervalPartition_covers [OF l i, of sampleEnv "17196 * nsPerDay"]
      january_31_keeps_day
    unfolding n by simp
qed

text \<open>
  Where C1 as stated fails: the single range of the one-day label spans two days, and
  on 2017-08-30 the ranges of the two-year label do not cover the two years before
  \<open>nowRounded\<close> but the two years before 2017-09-03.
\<close>

theorem partition_misses_the_nominal_window:
  "spans (getIntervalPartition sampleEnv sampleLabels 0 ''DAY'') = [2 * nsPerDay]
   \<and> 2 * nsPerDay \<noteq> nsPerDay
   \<and> cover (getIntervalPartition sampleEnv sampleLabels (17408 * nsPerDay) ''TWOYEAR'')
       \<noteq> {windowStart sampleLabels ''TWOYEAR'' (17409 * nsPerDay) .. 17409 * nsPerDay}"
proof -
  have "spans (getIntervalPartition sampleEnv sampleLabels 0 ''DAY'') = [2 * nsPerDay]"
    by (simp add: getIntervalPartition_def Let_def sampleLabels_def sampleEnv_def AddDate_days
        spans_def)
  moreover have "2 * nsPerDay \<noteq> nsPerDay"
    using nsPerDay_pos by simp
  ultimately show ?thesis
    using two_year_windows_from_august_31(3) by blast
qed

section \<open>Filter: rows on the boundaries are kept\<close>

lemma filterLoop_filter:
  assumes "\<forall>bucket \<in> set buckets. bucket \<noteq> []"
  shows "filterLoop E start end buckets filtered
    = Inr (filtered
        @ filter (\<lambda>bucket. let timestamp = Unix (toInt64 E (bucket ! 0)) 0
                    in start < timestamp \<and> timestamp < end
                       \<or> timestamp = start \<or> timestamp = end) buckets)"
  using assms
  by (induction buckets arbitrary: filtered)
     (auto simp: Let_def Before_def After_def Equal_def)

lemma filterLoop_empty_row:
  assumes "[] \<in> set buckets"
  shows "filterLoop E start end buckets filtered = Inl IndexOutOfRange"
  using assms
  by (induction buckets arbitrary: filtered) (auto simp: Let_def)

text \<open>
  C3, as the code has it. When every row has a timestamp (element 0), \<open>filterBuckets\<close>
  returns exactly the rows whose timestamp \<open>t\<close> satisfies \<open>start \<le> t \<le> end\<close>, in their
  order: a row at \<open>start\<close> or at \<open>end\<close> is kept, a row strictly between them is kept,
  a row strictly before \<open>start\<close> or after \<open>end\<close> is dropped. (Were \<open>end\<close> before
  \<open>start\<close>, the rows at the two instants would be kept and no other.) When some row
  has no element, reading \<^verbatim>\<open>bucket[0]\<close> panics and no row is kept.
\<close>

theorem filterBuckets_inclusive:
  "filterBuckets E start end buckets
    = (if [] \<in> set buckets then Inl IndexOutOfRange
       else Inr (filter (\<lambda>bucket. start \<le> Unix (toInt64 E (bucket ! 0)) 0
                            \<and> Unix (toInt64 E (bucket ! 0)) 0 \<le> end
                          \<or> Unix (toInt64 E (bucket ! 0)) 0 = start
                          \<or> Unix (toInt64 E (bucket ! 0)) 0 = end) buckets))"
proof (cases "[] \<in> set buckets")
  case True
  then show ?thesis
    by (simp add: filterBuckets_def filterLoop_empty_row)
next
  case False
  then have n: "\<forall>bucket \<in> set buckets. bucket \<noteq> []" by auto
  have "(start < t \<and> t < end \<or> t = start \<or> t = end)
      = (start \<le> t \<and> t \<le> end \<or> t = start \<or> t = end)" for t :: Time
    by auto
  then show ?thesis
    unfolding filterBuckets_def filterLoop_filter [OF n] using False by (simp add: Let_def)
qed

theorem filterBuckets_inclusive_witness:
  "filterBuckets sampleEnv 1000000000 3000000000 [[0, 7], [1, 8], [2, 9], [3, 10], [4, 11]]
     = Inr [[1, 8], [2, 9], [3, 10]]"
  using filterBuckets_inclusive
    [of sampleEnv 1000000000 3000000000 "[[0, 7], [1, 8], [2, 9], [3, 10], [4, 11]]"]
  by (simp add: sampleEnv_def Unix_def)

theorem empty_row_stops_the_filter:
  "filterBuckets sampleEnv 1000000000 3000000000 [[1, 8], [], [3, 10]] = Inl IndexOutOfRange"
  by (simp add: filterBuckets_def sampleEnv_def Unix_def Let_def Before_def After_def Equal_def)

section \<open>Normalizer: one PricePoint per row, in order\<close>

lemma generalizeLoop_map:
  assumes "\<forall>val \<in> set rest. 2 \<le> length val"
    and "length pricePoints = index + length rest"
  shows "generalizeLoop E index rest pricePoints
    = Inr (take index pricePoints
        @ map (\<lambda>val. \<lparr>Timestamp = toInt64 E (val ! 0), Price = FormatFloat E (val ! 1)\<rparr>) rest)"
  using assms
proof (induction rest arbitrary: index pricePoints)
  case Nil
  then show ?case by simp
next
  case (Cons val rest)
  let ?p = "\<lparr>Timestamp = toInt64 E (val ! 0), Price = FormatFloat E (val ! 1)\<rparr>"
  have len: "\<not> length val \<le> 1" using Cons.prems(1) by simp
  have lt: "index < length pricePoints" using Cons.prems(2) by simp
  have IH: "generalizeLoop E (Suc index) rest (pricePoints[index := ?p])
    = Inr (take (Suc index) (pricePoints[index := ?p])
        @ map (\<lambda>val. \<lparr>Timestamp = toInt64 E (val ! 0), Price = FormatFloat E (val ! 1)\<rparr>) rest)"
    using Cons.prems by (intro Cons.IH) simp_all
  have "take (Suc index) (pricePoints[index := ?p]) = take index pricePoints @ [?p]"
    using lt by (simp add: take_Suc_conv_app_nth)
  then show ?case using len IH by simp
qed

lemma generalizeLoop_short_row:
  assumes "\<exists>val \<in> set rest. length val < 2"
  shows "generalizeLoop E index rest pricePoints = Inl IndexOutOfRange"
  using assms
  by (induction rest arbitrary: index pricePoints) (auto simp: Let_def)

lemma generalizeGdaxBuckets_short_row:
  assumes "\<exists>val \<in> set buckets. length val < 2"
  shows "generalizeGdaxBuckets E buckets = Inl IndexOutOfRange"
  unfolding generalizeGdaxBuckets_def by (rule generalizeLoop_short_row [OF assms])

text \<open>
  C10. For every list of rows in which each row has at least two elements,
  \<open>generalizeGdaxBuckets\<close> returns (it does not panic) a series of the same length whose
  i-th PricePoint has the \<^verbatim>\<open>int64\<close> conversion of element 0 of the i-th row as its
  timestamp and the formatted element 1 as its price.
\<close>

theorem generalizeGdaxBuckets_total:
  assumes "\<forall>val \<in> set buckets. 2 \<le> length val"
  shows "\<exists>pricePoints.
      generalizeGdaxBuckets E buckets = Inr pricePoints
    \<and> length pricePoints = length buckets
    \<and> (\<forall>i < length buckets.
          pricePoints ! i
            = \<lparr>Timestamp = toInt64 E (buckets ! i ! 0), Price = FormatFloat E (buckets ! i ! 1)\<rparr>)"
proof -
  have "generalizeGdaxBuckets E buckets
    = Inr (map (\<lambda>val. \<lparr>Timestamp = toInt64 E (val ! 0), Price = FormatFloat E (val ! 1)\<rparr>)
        buckets)"
    unfolding generalizeGdaxBuckets_def
    using generalizeLoop_map [OF assms, of _ 0 E] by simp
  then show ?thesis by simp
qed

theorem generalizeGdaxBuckets_total_witness:
  "generalizeGdaxBuckets sampleEnv [[0, 7000], [900, 7001, 5]]
     = Inr [\<lparr>Timestamp = 0, Price = ''7000''\<rparr>, \<lparr>Timestamp = 900, Price = ''7001''\<rparr>]"
proof -
  have h: "\<forall>val \<in> set [[0, 7000], [900, 7001, 5 :: int]]. 2 \<le> length val" by simp
  from generalizeGdaxBuckets_total [OF h, of sampleEnv]
  obtain pricePoints where
    r: "generalizeGdaxBuckets sampleEnv [[0, 7000], [900, 7001, 5]] = Inr pricePoints"
    and l: "length pricePoints = 2"
    and n: "\<forall>i < 2. pricePoints ! i
        = \<lparr>Timestamp = toInt64 sampleEnv ([[0, 7000], [900, 7001, 5]] ! i ! 0),
           Price = FormatFloat sampleEnv ([[0, 7000], [900, 7001, 5]] ! i ! 1)\<rparr>"
    by auto
  have d: "FormatInt 7000 = ''7000''" "FormatInt 7001 = ''7001''"
    by (simp_all add: FormatInt_def digits.simps)
  have "pricePoints ! 0 = \<lparr>Timestamp = 0, Price = ''7000''\<rparr>"
    using n d by (simp add: sampleEnv_def)
  moreover have "pricePoints ! 1 = \<lparr>Timestamp = 900, Price = ''7001''\<rparr>"
    using n d by (simp add: sampleEnv_def)
  ultimately have "pricePoints = [\<lparr>Timestamp = 0, Price = ''7000''\<rparr>, \<lparr>Timestamp = 900, Price = ''7001''\<rparr>]"
    using l by (intro nth_equalityI) (auto simp: less_Suc_eq numeral_2_eq_2)
  then show ?thesis using r by simp
qed

section \<open>Fetcher: how a run over the partition ends\<close>

lemma fetchLoop_after_success:
  assumes "fetchLoop E granularity earlier buckets w = (Inr (Some buckets', None), w')"
  shows "fetchLoop E granularity (earlier @ later) buckets w
    = fetchLoop E granularity later buckets' w'"
  using assms
proof (induction earlier arbitrary: buckets w)
  case Nil
  then show ?case by simp
next
  case (Cons timePeriod earlier)
  from Cons.prems show ?case
    by (auto simp: Cons.IH split: sum.splits prod.splits option.splits if_splits)
qed

lemma fetchLoop_non_success_first:
  assumes "buildGdaxRequest granularity (pstart timePeriod) (pend timePeriod) = Inr requestString"
    and "http_Get E requestString w = ((Some r, None), w')"
    and "StatusCode r \<noteq> 200"
  shows "fetchLoop E granularity (timePeriod # rest) buckets w
    = (Inr (None,
            Some \<lparr>Err = (case decodeError E (Body r) of
                           Inl e \<Rightarrow> e
                         | Inr errResp \<Rightarrow> Message errResp),
                  ErrorCode = 0\<rparr>), w')"
  using assms by (simp split: sum.splits)

lemma fetchLoop_nil_response_first:
  assumes "buildGdaxRequest granularity (pstart timePeriod) (pend timePeriod) = Inr requestString"
    and "http_Get E requestString w = ((None, err), w')"
  shows "fetchLoop E granularity (timePeriod # rest) buckets w = (Inl NilPointerDereference, w')"
  using assms by simp

lemma fetchLoop_transport_error_first:
  assumes "buildGdaxRequest granularity (pstart timePeriod) (pend timePeriod) = Inr requestString"
    and "http_Get E requestString w = ((Some r, Some e), w')"
  shows "fetchLoop E granularity (timePeriod # rest) buckets w
    = (Inr (None, Some \<lparr>Err = ''Failed to reach GDAX API'', ErrorCode = 500\<rparr>), w')"
  using assms by simp

lemma PollGdaxHistorical_fetch_error:
  assumes "mapIndex (gdaxIntervalToGranularity L) (ToUpper E interval) \<noteq> 0"
    and "fetchGdaxBuckets E L (ToUpper E interval) w = (Inr (buckets, Some e), w')"
  shows "PollGdaxHistorical E L interval w = (Inr (None, Some e), w')"
  using assms by (simp add: PollGdaxHistorical_def Let_def)

lemma mapIndex_supported:
  "(mapIndex (gdaxIntervalToGranularity L) interval = 0) = (interval \<notin> set (supported L))"
  by (simp add: mapIndex_def gdaxIntervalToGranularity_def supported_def dailyBySeconds_def
      sixhourBySeconds_def hourBySeconds_def fifteenminuteBySeconds_def)

text \<open>
  C8. Let the label be supported and let the requests for the earlier sub-ranges of its
  partition have succeeded. When the next response has a status other than 200, the
  call makes no further request and returns no price series and an error: the message
  of the exchange's error payload when the body decodes as one, the decoder's own error
  when it does not.
\<close>

theorem PollGdaxHistorical_non_success_status:
  assumes "ToUpper E interval \<in> set (supported L)"
    and "getIntervalPartition E L (now w) (ToUpper E interval) = earlier @ timePeriod # rest"
    and "fetchLoop E (mapIndex (gdaxIntervalToGranularity L) (ToUpper E interval)) earlier [] w
           = (Inr (Some buckets, None), w1)"
    and "buildGdaxRequest (mapIndex (gdaxIntervalToGranularity L) (ToUpper E interval))
           (pstart timePeriod) (pend timePeriod) = Inr requestString"
    and "http_Get E requestString w1 = ((Some r, None), w2)"
    and "StatusCode r \<noteq> 200"
  shows "PollGdaxHistorical E L interval w
    = (Inr (None,
            Some \<lparr>Err = (case decodeError E (Body r) of
                           Inl e \<Rightarrow> e
                         | Inr errResp \<Rightarrow> Message errResp),
                  ErrorCode = 0\<rparr>), w2)"
proof -
  have "fetchGdaxBuckets E L (ToUpper E interval) w
    = (Inr (None,
            Some \<lparr>Err = (case decodeError E (Body r) of
                           Inl e \<Rightarrow> e
                         | Inr errResp \<Rightarrow> Message errResp),
                  ErrorCode = 0\<rparr>), w2)"
    unfolding fetchGdaxBuckets_def Let_def assms(2)
      fetchLoop_after_success [OF assms(3)]
    by (rule fetchLoop_non_success_first [OF assms(4,5,6)])
  moreover have "mapIndex (gdaxIntervalToGranularity L) (ToUpper E interval) \<noteq> 0"
    using assms(1) by (simp add: mapIndex_supported)
  ultimately show ?thesis
    by (rule PollGdaxHistorical_fetch_error [rotated])
qed

theorem PollGdaxHistorical_non_success_status_witness:
  "fst (PollGdaxHistorical sampleEnv sampleLabels ''week''
      (sampleWorld [(Some \<lparr>StatusCode = 200, Body = ''[]''\<rparr>, None),
                    (Some \<lparr>StatusCode = 404, Body = ''{\"message\":\"NotFound\"}''\<rparr>, None)]))
     = Inr (None, Some \<lparr>Err = ''NotFound'', ErrorCode = 0\<rparr>)"
proof -
  let ?g = "mapIndex (gdaxIntervalToGranularity sampleLabels) ''WEEK''"
  let ?r = "\<lparr>StatusCode = 404, Body = ''{\"message\":\"NotFound\"}''\<rparr>"
  let ?w = "sampleWorld [(Some \<lparr>StatusCode = 200, Body = ''[]''\<rparr>, None), (Some ?r, None)]"
  note up = sample_labels(3)
  obtain u1 where u1: "buildGdaxRequest ?g (- nsPerDay) nsPerDay = Inr u1"
    using buildGdaxRequest_returns by blast
  obtain u2 where u2: "buildGdaxRequest ?g (- (4 * nsPerDay)) (- nsPerDay) = Inr u2"
    using buildGdaxRequest_returns by blast
  have h1: "ToUpper sampleEnv ''week'' \<in> set (supported sampleLabels)"
    unfolding up by (rule sample_labels)
  have h2: "getIntervalPartition sampleEnv sampleLabels (now ?w) (ToUpper sampleEnv ''week'')
      = [\<lparr>pstart = - nsPerDay, pend = nsPerDay\<rparr>]
        @ \<lparr>pstart = - (4 * nsPerDay), pend = - nsPerDay\<rparr>
        # [\<lparr>pstart = - (7 * nsPerDay), pend = - (4 * nsPerDay)\<rparr>]"
    unfolding up using sample_partition(2) by (simp add: sampleWorld_def)
  have h3: "fetchLoop sampleEnv (mapIndex (gdaxIntervalToGranularity sampleLabels)
          (ToUpper sampleEnv ''week'')) [\<lparr>pstart = - nsPerDay, pend = nsPerDay\<rparr>] [] ?w
      = (Inr (Some [], None), \<lparr>now = 0, net = [(Some ?r, None)], requests = [u1]\<rparr>)"
    unfolding up by (rule sample_first_week_request [OF u1])
  have h4: "buildGdaxRequest (mapIndex (gdaxIntervalToGranularity sampleLabels)
          (ToUpper sampleEnv ''week''))
          (pstart \<lparr>pstart = - (4 * nsPerDay), pend = - nsPerDay\<rparr>)
          (pend \<lparr>pstart = - (4 * nsPerDay), pend = - nsPerDay\<rparr>) = Inr u2"
    unfolding up using u2 by simp
  have h5: "http_Get sampleEnv u2 \<lparr>now = 0, net = [(Some ?r, None)], requests = [u1]\<rparr>
      = ((Some ?r, None), \<lparr>now = 0, net = [], requests = [u1] @ [u2]\<rparr>)"
    by (rule scripted_Get)
  have h6: "StatusCode ?r \<noteq> 200" by simp
  show ?thesis
    using PollGdaxHistorical_non_success_status [OF h1 h2 h3 h4 h5 h6]
    by (simp add: sampleEnv_def sampleDecodeError_def)
qed

section \<open>Orchestrator: labels that are not supported\<close>

text \<open>
  C6. When the upper-cased label is not one of the supported labels, the call returns
  no series and the invalid-interval error with code 400, and leaves the world as it
  was: no request is made. Matching is case-insensitive: whatever the labels are,
  supported or not, two of them with the same upper-case form get the same result in
  the same world.
\<close>

theorem PollGdaxHistorical_invalid_interval:
  "(ToUpper E interval \<notin> set (supported L)
      \<longrightarrow> PollGdaxHistorical E L interval w
          = (Inr (None,
                  Some \<lparr>Err = ''Please provide a valid interval; '' @ ToUpper E interval
                                @ '' is invalid'',
                        ErrorCode = 400\<rparr>), w))
   \<and> (ToUpper E other = ToUpper E interval
      \<longrightarrow> PollGdaxHistorical E L other w = PollGdaxHistorical E L interval w)"
proof (intro conjI impI)
  assume "ToUpper E interval \<notin> set (supported L)"
  then have "mapIndex (gdaxIntervalToGranularity L) (ToUpper E interval) = 0"
    by (simp add: mapIndex_supported)
  then show "PollGdaxHistorical E L interval w
      = (Inr (None,
              Some \<lparr>Err = ''Please provide a valid interval; '' @ ToUpper E interval
                            @ '' is invalid'',
                    ErrorCode = 400\<rparr>), w)"
    by (simp add: PollGdaxHistorical_def Let_def)
next
  assume "ToUpper E other = ToUpper E interval"
  then show "PollGdaxHistorical E L other w = PollGdaxHistorical E L interval w"
    by (simp add: PollGdaxHistorical_def Let_def)
qed

theorem PollGdaxHistorical_invalid_interval_witness:
  "PollGdaxHistorical sampleEnv sampleLabels ''bogus'' (sampleWorld [])
     = (Inr (None,
             Some \<lparr>Err = ''Please provide a valid interval; BOGUS is invalid'',
                   ErrorCode = 400\<rparr>), sampleWorld [])
   \<and> PollGdaxHistorical sampleEnv sampleLabels ''day''
       (sampleWorld [(Some \<lparr>StatusCode = 200, Body = ''[[0,7000]]''\<rparr>, None)])
     = PollGdaxHistorical sampleEnv sampleLabels ''DAY''
       (sampleWorld [(Some \<lparr>StatusCode = 200, Body = ''[[0,7000]]''\<rparr>, None)])"
proof -
  have u: "ToUpper sampleEnv ''bogus'' = ''BOGUS''" "ToUpper sampleEnv ''day'' = ''DAY''"
    "ToUpper sampleEnv ''DAY'' = ''DAY''"
    by (simp_all add: sampleEnv_def asciiUpper_def)
  have h: "ToUpper sampleEnv ''bogus'' \<notin> set (supported sampleLabels)"
    unfolding u by (simp add: supported_def sampleLabels_def)
  have c: "ToUpper sampleEnv ''day'' = ToUpper sampleEnv ''DAY''"
    unfolding u by (rule refl)
  show ?thesis
    using PollGdaxHistorical_invalid_interval
        [where E = sampleEnv and L = sampleLabels and interval = "''bogus''"
           and w = "sampleWorld []"]
      PollGdaxHistorical_invalid_interval
        [where E = sampleEnv and L = sampleLabels and interval = "''DAY''"
           and other = "''day''"
           and w = "sampleWorld [(Some \<lparr>StatusCode = 200, Body = ''[[0,7000]]''\<rparr>, None)]"]
      h c u
    by simp
qed

section \<open>Fetcher: a request that the transport fails\<close>

lemma PollGdaxHistorical_fetch_panic:
  assumes "mapIndex (gdaxIntervalToGranularity L) (ToUpper E interval) \<noteq> 0"
    and "fetchGdaxBuckets E L (ToUpper E interval) w = (Inl p, w')"
  shows "PollGdaxHistorical E L interval w = (Inl p, w')"
  using assms by (simp add: PollGdaxHistorical_def Let_def)

lemma PollGdaxHistorical_nil_response:
  assumes "ToUpper E interval \<in> set (supported L)"
    and "getIntervalPartition E L (now w) (ToUpper E interval) = earlier @ timePeriod # rest"
    and "fetchLoop E (mapIndex (gdaxIntervalToGranularity L) (ToUpper E interval)) earlier [] w
           = (Inr (Some buckets, None), w1)"
    and "buildGdaxRequest (mapIndex (gdaxIntervalToGranularity L) (ToUpper E interval))
           (pstart timePeriod) (pend timePeriod) = Inr requestString"
    and "http_Get E requestString w1 = ((None, err), w2)"
  shows "PollGdaxHistorical E L interval w = (Inl NilPointerDereference, w2)"
proof -
  have "fetchGdaxBuckets E L (ToUpper E interval) w = (Inl NilPointerDereference, w2)"
    unfolding fetchGdaxBuckets_def Let_def assms(2) fetchLoop_after_success [OF assms(3)]
    by (rule fetchLoop_nil_response_first [OF assms(4,5)])
  moreover have "mapIndex (gdaxIntervalToGranularity L) (ToUpper E interval) \<noteq> 0"
    using assms(1) by (simp add: mapIndex_supported)
  ultimately show ?thesis
    by (rule PollGdaxHistorical_fetch_panic [rotated])
qed

text \<open>
  C5, at a failing input. The one-week label needs three requests. The transport answers
  the first with status 200 and an empty array and fails the second the way
  \<^verbatim>\<open>http.Get\<close> fails when the endpoint cannot be reached: a nil response and an error.
  The call does not return a transport error: it panics on the nil response.
\<close>

theorem transport_failure_on_second_request:
  "fst (PollGdaxHistorical sampleEnv sampleLabels ''WEEK''
      (sampleWorld [(Some \<lparr>StatusCode = 200, Body = ''[]''\<rparr>, None),
                    (None, Some ''dial tcp: connection refused'')]))
     = Inl NilPointerDereference"
proof -
  let ?g = "mapIndex (gdaxIntervalToGranularity sampleLabels) ''WEEK''"
  let ?w = "sampleWorld [(Some \<lparr>StatusCode = 200, Body = ''[]''\<rparr>, None),
                         (None, Some ''dial tcp: connection refused'')]"
  have up: "ToUpper sampleEnv ''WEEK'' = ''WEEK''"
    by (simp add: sampleEnv_def asciiUpper_def)
  obtain u1 where u1: "buildGdaxRequest ?g (- nsPerDay) nsPerDay = Inr u1"
    using buildGdaxRequest_returns by blast
  obtain u2 where u2: "buildGdaxRequest ?g (- (4 * nsPerDay)) (- nsPerDay) = Inr u2"
    using buildGdaxRequest_returns by blast
  have "PollGdaxHistorical sampleEnv sampleLabels ''WEEK'' ?w
      = (Inl NilPointerDereference, \<lparr>now = 0, net = [], requests = [u1] @ [u2]\<rparr>)"
  proof (rule PollGdaxHistorical_nil_response)
    show "ToUpper sampleEnv ''WEEK'' \<in> set (supported sampleLabels)"
      unfolding up by (rule sample_labels)
    show "getIntervalPartition sampleEnv sampleLabels (now ?w) (ToUpper sampleEnv ''WEEK'')
        = [\<lparr>pstart = - nsPerDay, pend = nsPerDay\<rparr>]
          @ \<lparr>pstart = - (4 * nsPerDay), pend = - nsPerDay\<rparr>
          # [\<lparr>pstart = - (7 * nsPerDay), pend = - (4 * nsPerDay)\<rparr>]"
      unfolding up using sample_partition(2) by (simp add: sampleWorld_def)
    show "fetchLoop sampleEnv (mapIndex (gdaxIntervalToGranularity sampleLabels)
            (ToUpper sampleEnv ''WEEK'')) [\<lparr>pstart = - nsPerDay, pend = nsPerDay\<rparr>] [] ?w
        = (Inr (Some [], None),
           \<lparr>now = 0, net = [(None, Some ''dial tcp: connection refused'')], requests = [u1]\<rparr>)"
      unfolding up by (rule sample_first_week_request [OF u1])
    show "buildGdaxRequest (mapIndex (gdaxIntervalToGranularity sampleLabels)
            (ToUpper sampleEnv ''WEEK''))
            (pstart \<lparr>pstart = - (4 * nsPerDay), pend = - nsPerDay\<rparr>)
            (pend \<lparr>pstart = - (4 * nsPerDay), pend = - nsPerDay\<rparr>) = Inr u2"
      unfolding up using u2 by simp
    show "http_Get sampleEnv u2
            \<lparr>now = 0, net = [(None, Some ''dial tcp: connection refused'')], requests = [u1]\<rparr>
        = ((None, Some ''dial tcp: connection refused''),
           \<lparr>now = 0, net = [], requests = [u1] @ [u2]\<rparr>)"
      by (rule scripted_Get)
  qed
  then show ?thesis by simp
qed

section \<open>Orchestrator: a series or an error\<close>

lemma fetchLoop_returns:
  assumes "wellFormedRun E granularity periods w"
    and "\<forall>row \<in> set buckets. 2 \<le> length row"
  shows "\<exists>w'. (\<exists>e. fetchLoop E granularity periods buckets w = (Inr (None, Some e), w'))
      \<or> (\<exists>buckets'. fetchLoop E granularity periods buckets w = (Inr (Some buckets', None), w')
            \<and> (\<forall>row \<in> set buckets'. 2 \<le> length row))"
  using assms
proof (induction periods arbitrary: buckets w)
  case Nil
  then show ?case by simp
next
  case (Cons timePeriod rest)
  obtain requestString where
    b: "buildGdaxRequest granularity (pstart timePeriod) (pend timePeriod) = Inr requestString"
    using buildGdaxRequest_returns by blast
  obtain response err w1 where g: "http_Get E requestString w = ((response, err), w1)"
    by (metis surj_pair)
  have "response \<noteq> None"
    using Cons.prems(1) b g by (auto split: option.splits)
  then obtain r where r: "response = Some r" by auto
  show ?case
  proof (cases "err = None \<and> StatusCode r = 200")
    case False
    then show ?thesis
      using b g r by (auto split: sum.splits)
  next
    case True
    show ?thesis
    proof (cases "decodeBuckets E (Body r)")
      case (Inl e)
      then show ?thesis using b g r True by auto
    next
      case (Inr tempBuckets)
      then have wf: "rowsWellFormed E timePeriod tempBuckets"
        and rest: "wellFormedRun E granularity rest w1"
        using Cons.prems(1) b g r True by simp_all
      from wf have n: "\<forall>bucket \<in> set tempBuckets. bucket \<noteq> []"
        by (auto simp: rowsWellFormed_def)
      define kept where "kept = filter (\<lambda>bucket. let timestamp = Unix (toInt64 E (bucket ! 0)) 0
                    in pstart timePeriod < timestamp \<and> timestamp < pend timePeriod
                       \<or> timestamp = pstart timePeriod \<or> timestamp = pend timePeriod)
                  tempBuckets"
      have k: "filterBuckets E (pstart timePeriod) (pend timePeriod) tempBuckets = Inr kept"
        unfolding filterBuckets_def filterLoop_filter [OF n] kept_def by simp
      have "\<forall>row \<in> set kept. 2 \<le> length row"
        using wf unfolding kept_def rowsWellFormed_def Let_def by auto
      then have "\<forall>row \<in> set (buckets @ kept). 2 \<le> length row"
        using Cons.prems(2) by auto
      from Cons.IH [OF rest this] show ?thesis
        using b g r True Inr k by simp
    qed
  qed
qed

lemma PollGdaxHistorical_one_of_two:
  assumes "PollGdaxHistorical E L interval w = (Inr (series, myerror), w')"
  shows "(series = None) = (myerror \<noteq> None)"
  using assms
  by (auto simp: PollGdaxHistorical_def Let_def split: if_splits prod.splits sum.splits)

text \<open>
  C9, as the code has it. For every label and every world, if the answers that this
  run gets are well formed (each request is answered with a response; in each array
  decoded from a status-200 body every row has a timestamp, and every row inside the
  sub-range has a price), then \<open>PollGdaxHistorical\<close> returns, and returns exactly one of a
  price series and an error: the series is nil exactly when the error is not. Nothing
  is assumed of answers that the run does not get.
\<close>

theorem PollGdaxHistorical_series_or_error:
  assumes "wellFormedRun E (mapIndex (gdaxIntervalToGranularity L) (ToUpper E interval))
             (getIntervalPartition E L (now w) (ToUpper E interval)) w"
  shows "\<exists>series myerror w'.
      PollGdaxHistorical E L interval w = (Inr (series, myerror), w')
    \<and> (series = None) = (myerror \<noteq> None)"
proof (cases "mapIndex (gdaxIntervalToGranularity L) (ToUpper E interval) = 0")
  case True
  then show ?thesis by (simp add: PollGdaxHistorical_def Let_def)
next
  case False
  from fetchLoop_returns [OF assms, of "[]"]
  obtain w' where "(\<exists>e. fetchGdaxBuckets E L (ToUpper E interval) w = (Inr (None, Some e), w'))
      \<or> (\<exists>buckets'. fetchGdaxBuckets E L (ToUpper E interval) w = (Inr (Some buckets', None), w')
            \<and> (\<forall>row \<in> set buckets'. 2 \<le> length row))"
    unfolding fetchGdaxBuckets_def Let_def by fastforce
  then show ?thesis
  proof (elim disjE exE conjE)
    fix e
    assume "fetchGdaxBuckets E L (ToUpper E interval) w = (Inr (None, Some e), w')"
    then show ?thesis using False by (simp add: PollGdaxHistorical_def Let_def)
  next
    fix buckets'
    assume f: "fetchGdaxBuckets E L (ToUpper E interval) w = (Inr (Some buckets', None), w')"
      and l: "\<forall>row \<in> set buckets'. 2 \<le> length row"
    have "\<exists>pricePoints. generalizeGdaxBuckets E buckets' = Inr pricePoints"
      unfolding generalizeGdaxBuckets_def
      using generalizeLoop_map [OF l, of _ 0 E] by simp
    then show ?thesis
      using False f by (auto simp: PollGdaxHistorical_def Let_def elems_def)
  qed
qed

theorem PollGdaxHistorical_series_or_error_witness:
  "\<exists>series myerror w'.
      PollGdaxHistorical sampleEnv sampleLabels ''day''
        (sampleWorld [(Some \<lparr>StatusCode = 200, Body = ''[[0,7000]]''\<rparr>, None)])
      = (Inr (series, myerror), w')
    \<and> (series = None) = (myerror \<noteq> None)"
proof -
  let ?g = "mapIndex (gdaxIntervalToGranularity sampleLabels) ''DAY''"
  let ?r = "\<lparr>StatusCode = 200, Body = ''[[0,7000]]''\<rparr>"
  let ?p = "\<lparr>pstart = - nsPerDay, pend = nsPerDay\<rparr>"
  note up = sample_labels(2)
  obtain u where u: "buildGdaxRequest ?g (- nsPerDay) nsPerDay = Inr u"
    using buildGdaxRequest_returns by blast
  have g: "http_Get sampleEnv u (sampleWorld [(Some ?r, None)])
      = ((Some ?r, None), \<lparr>now = 0, net = [], requests = [u]\<rparr>)"
    by (rule scripted_Get)
  have d: "decodeBuckets sampleEnv (Body ?r) = Inr [[0, 7000]]"
    by (simp add: sampleEnv_def sampleDecodeBuckets_def)
  have "rowsWellFormed sampleEnv ?p [[0, 7000]]"
    by (simp add: rowsWellFormed_def)
  then have "wellFormedRun sampleEnv ?g [?p] (sampleWorld [(Some ?r, None)])"
    using u g d by simp
  then have h: "wellFormedRun sampleEnv
      (mapIndex (gdaxIntervalToGranularity sampleLabels) (ToUpper sampleEnv ''day''))
      (getIntervalPartition sampleEnv sampleLabels (now (sampleWorld [(Some ?r, None)]))
         (ToUpper sampleEnv ''day''))
      (sampleWorld [(Some ?r, None)])"
    unfolding up using sample_partition(1) by (simp add: sampleWorld_def)
  show ?thesis
    by (rule PollGdaxHistorical_series_or_error [OF h])
qed

lemma fetchLoop_empty_row_first:
  assumes "buildGdaxRequest granularity (pstart timePeriod) (pend timePeriod) = Inr requestString"
    and "http_Get E requestString w = ((Some r, None), w')"
    and "StatusCode r = 200"
    and "decodeBuckets E (Body r) = Inr rows"
    and "[] \<in> set rows"
  shows "fetchLoop E granularity (timePeriod # rest) buckets w = (Inl IndexOutOfRange, w')"
  using assms filterLoop_empty_row [OF assms(5), of E "pstart timePeriod" "pend timePeriod" "[]"]
  by (simp add: filterBuckets_def)

theorem row_without_elements_panics:
  "fst (PollGdaxHistorical sampleEnv sampleLabels ''DAY''
      (sampleWorld [(Some \<lparr>StatusCode = 200, Body = ''[[]]''\<rparr>, None)]))
     = Inl IndexOutOfRange"
proof -
  let ?g = "mapIndex (gdaxIntervalToGranularity sampleLabels) ''DAY''"
  let ?r = "\<lparr>StatusCode = 200, Body = ''[[]]''\<rparr>"
  have up: "ToUpper sampleEnv ''DAY'' = ''DAY''"
    by (simp add: sampleEnv_def asciiUpper_def)
  obtain u where u: "buildGdaxRequest ?g (- nsPerDay) nsPerDay = Inr u"
    using buildGdaxRequest_returns by blast
  have g: "http_Get sampleEnv u (sampleWorld [(Some ?r, None)])
      = ((Some ?r, None), \<lparr>now = 0, net = [], requests = [u]\<rparr>)"
    by (rule scripted_Get)
  have d: "decodeBuckets sampleEnv (Body ?r) = Inr [[]]"
    by (simp add: sampleEnv_def sampleDecodeBuckets_def)
  have "fetchLoop sampleEnv ?g [\<lparr>pstart = - nsPerDay, pend = nsPerDay\<rparr>] []
      (sampleWorld [(Some ?r, None)])
      = (Inl IndexOutOfRange, \<lparr>now = 0, net = [], requests = [u]\<rparr>)"
    by (rule fetchLoop_empty_row_first [OF _ g _ d]) (use u in simp_all)
  then have "fetchGdaxBuckets sampleEnv sampleLabels (ToUpper sampleEnv ''DAY'')
      (sampleWorld [(Some ?r, None)])
      = (Inl IndexOutOfRange, \<lparr>now = 0, net = [], requests = [u]\<rparr>)"
    unfolding up fetchGdaxBuckets_def Let_def using sample_partition(1)
    by (simp add: sampleWorld_def)
  moreover have "mapIndex (gdaxIntervalToGranularity sampleLabels) (ToUpper sampleEnv ''DAY'') \<noteq> 0"
    unfolding up using sample_labels(4) by (simp add: mapIndex_supported)
  ultimately have "PollGdaxHistorical sampleEnv sampleLabels ''DAY'' (sampleWorld [(Some ?r, None)])
      = (Inl IndexOutOfRange, \<lparr>now = 0, net = [], requests = [u]\<rparr>)"
    by (rule PollGdaxHistorical_fetch_panic [rotated])
  then show ?thesis by simp
qed

end
